theory Spec2Isabelle
  imports Main "HOL-Library.Char_ord" "HOL-Library.AList" "HOL-Library.Word"
begin

section \<open>Segment trie (mapper/internal/segmenttrie/trie.go)\<close>

text \<open>
  A Go string is a byte sequence; it is modelled as \<open>string\<close> (a list of 8-bit
  characters), byte comparisons are those of \<open>HOL-Library.Char_ord\<close>.

  \<open>Trie[T]\<close> is a struct reached through pointers, whose children live in a Go map
  keyed by segment. The nodes form a tree (a child is created by \<open>Insert\<close> and is
  referenced from its parent only), so a node is a value of the datatype below; the
  children map is an association list read with \<open>map_of\<close> and written with
  \<open>AList.update\<close>, which keeps one entry per key as the Go map does. A nil
  \<open>*Trie[T]\<close> is \<open>None\<close> of type \<open>'v trie option\<close>. The zero value of the
  type parameter \<open>T\<close> is \<open>0\<close> of the class \<open>zero\<close>.
\<close>

datatype 'v trie =
  Trie (children: "(string \<times> 'v trie) list") (hasVal: bool) (val: 'v) (pattern: string)

datatype trie_error = ErrInvalidPrefix

definition segmenttrie_New :: "'v::zero trie" where
  "segmenttrie_New = Trie [] False 0 []"

text \<open>The character class \<open>[a-z0-9_]\<close> as the source tests it.\<close>

definition is_rest :: "char \<Rightarrow> bool" where
  "is_rest c = ((c \<ge> CHR ''a'' \<and> c \<le> CHR ''z'') \<or> (c \<ge> CHR ''0'' \<and> c \<le> CHR ''9'') \<or> c = CHR ''_'')"

text \<open>\<open>validSegment\<close>: not empty; \<open>*\<close> when wildcards are allowed; otherwise
  \<open>[a-z][a-z0-9_]*\<close>.\<close>

definition validSegment :: "string \<Rightarrow> bool \<Rightarrow> bool" where
  "validSegment seg allowWildcard =
     (case seg of
        [] \<Rightarrow> False
      | c # cs \<Rightarrow>
          if allowWildcard \<and> seg = ''*'' then True
          else if c < CHR ''a'' \<or> c > CHR ''z'' then False
          else list_all is_rest cs)"

text \<open>\<open>strings.Split(s, ".")\<close> of the Go standard library: the pieces of \<open>s\<close> between
  the dots, one more than there are dots. \<open>Split_acc\<close> carries the piece being read.\<close>

fun Split_acc :: "string \<Rightarrow> string \<Rightarrow> string list" where
  "Split_acc cur [] = [cur]"
| "Split_acc cur (c # cs) =
     (if c = CHR ''.'' then cur # Split_acc [] cs else Split_acc (cur @ [c]) cs)"

definition Split :: "string \<Rightarrow> string list" where
  "Split s = Split_acc [] s"

text \<open>\<open>splitAndValidate\<close> returns \<open>(segs, true)\<close> as \<open>Some segs\<close> and
  \<open>(nil, false)\<close> as \<open>None\<close>.\<close>

definition splitAndValidate :: "string \<Rightarrow> bool \<Rightarrow> string list option" where
  "splitAndValidate s allowWildcard =
     (if s = [] then Some []
      else let segs = Split s in
        if list_all (\<lambda>seg. validSegment seg allowWildcard) segs then Some segs else None)"

text \<open>The loop of \<open>Insert\<close> that walks or creates one node per segment and then marks
  the terminal node. The source mutates the nodes in place; the model rebuilds the
  path from the terminal node up.\<close>

fun insert_walk :: "string list \<Rightarrow> string \<Rightarrow> 'v \<Rightarrow> 'v::zero trie \<Rightarrow> 'v trie" where
  "insert_walk [] prefix v cur =
     Trie (children cur) True v (if pattern cur = [] then prefix else pattern cur)"
| "insert_walk (s # segs) prefix v cur =
     (let child = (case map_of (children cur) s of
                     Some child \<Rightarrow> child
                   | None \<Rightarrow> segmenttrie_New)
      in Trie (AList.update s (insert_walk segs prefix v child) (children cur))
              (hasVal cur) (val cur) (pattern cur))"

text \<open>\<open>Insert\<close> returns the error, or the trie after the insertion (the source
  returns nil and has mutated the receiver). Every error is raised before the first
  mutation, so on \<open>Inl\<close> the receiver is as it was.\<close>

definition Insert :: "'v::zero trie option \<Rightarrow> string \<Rightarrow> 'v \<Rightarrow> trie_error + 'v trie" where
  "Insert t prefix v =
     (case t of
        None \<Rightarrow> Inl ErrInvalidPrefix
      | Some n \<Rightarrow>
         (case splitAndValidate prefix True of
            None \<Rightarrow> Inl ErrInvalidPrefix
          | Some segs \<Rightarrow>
              if length segs = 0 then Inl ErrInvalidPrefix
              else if list_all (\<lambda>s. s = ''*'') segs then Inl ErrInvalidPrefix
              else Inr (insert_walk segs prefix v n)))"

text \<open>The inner loop of \<open>dfs\<close> that reads the rest of a segment: from index \<open>i\<close> it
  stops at a dot or at the end of the reason (\<open>Some\<close> of that index), and gives up at
  any other character outside \<open>[a-z0-9_]\<close> (\<open>None\<close>).\<close>

function scan :: "string \<Rightarrow> nat \<Rightarrow> nat option" where
  "scan reason i =
     (if i < length reason then
        (let c = reason ! i in
         if c = CHR ''.'' then Some i
         else if \<not> ((c \<ge> CHR ''a'' \<and> c \<le> CHR ''z'') \<or> (c \<ge> CHR ''0'' \<and> c \<le> CHR ''9'') \<or> c = CHR ''_'')
              then None
         else scan reason (i + 1))
      else Some i)"
  by pat_completeness auto
termination
  by (relation "measure (\<lambda>(reason, i). length reason - i)") auto
declare scan.simps [simp del]

text \<open>The scan never moves backwards; the termination proofs of the traversals need it.\<close>

lemma scan_ge: "scan reason i = Some j \<Longrightarrow> i \<le> j"
proof (induction reason i rule: scan.induct)
  case (1 reason i)
  then show ?case
    by (subst (asm) (2) scan.simps) (fastforce simp: Let_def split: if_splits)
qed

text \<open>The offset after segment end \<open>i\<close>: skip the dot if there is one.\<close>

definition skip_dot :: "string \<Rightarrow> nat \<Rightarrow> nat" where
  "skip_dot reason i = (if i < length reason \<and> reason ! i = CHR ''.'' then i + 1 else i)"

text \<open>The closure \<open>dfs\<close> of \<open>Match\<close>. It updates the captured variables
  \<open>bestDepth\<close> and \<open>bestVal\<close>; the model passes them as a pair and returns the pair
  (the depth the source returns is discarded by every caller). It recurses into the
  child of the literal segment first, then into the child of \<open>*\<close>.\<close>

function dfs :: "string \<Rightarrow> 'v trie \<Rightarrow> nat \<Rightarrow> int \<Rightarrow> int \<times> 'v \<Rightarrow> int \<times> 'v" where
  "dfs reason n off depth best =
     (let best0 = (if hasVal n \<and> depth > fst best then (depth, val n) else best) in
      if off \<ge> length reason then best0
      else
        let c = reason ! off in
        if c < CHR ''a'' \<or> c > CHR ''z'' then best0
        else
          (case scan reason (off + 1) of
             None \<Rightarrow> best0
           | Some i \<Rightarrow>
               let seg = take (i - off) (drop off reason);
                   best1 = (case map_of (children n) seg of
                              Some next \<Rightarrow> dfs reason next (skip_dot reason i) (depth + 1) best0
                            | None \<Rightarrow> best0)
               in (case map_of (children n) ''*'' of
                     Some next \<Rightarrow> dfs reason next (skip_dot reason i) (depth + 1) best1
                   | None \<Rightarrow> best1)))"
  by pat_completeness auto
termination
proof (relation "measure (\<lambda>(reason, n, off, depth, best). length reason - off)")
  show "wf (measure (\<lambda>(reason, n, off, depth, best). length reason - off))" by simp
qed (auto simp: skip_dot_def dest!: scan_ge)
declare dfs.simps [simp del]

definition Match :: "'v::zero trie option \<Rightarrow> string \<Rightarrow> 'v \<times> bool" where
  "Match t reason =
     (case t of
        None \<Rightarrow> (0, False)
      | Some n \<Rightarrow>
          (let (bestDepth, bestVal) = dfs reason n 0 0 (- 1, 0) in
           if bestDepth < 0 then (0, False) else (bestVal, True)))"

text \<open>The closure \<open>dfs\<close> of \<open>MatchWithPattern\<close>: the same traversal, which also
  keeps the pattern of the best node.\<close>

function dfsP :: "string \<Rightarrow> 'v trie \<Rightarrow> nat \<Rightarrow> int \<Rightarrow> int \<times> 'v \<times> string \<Rightarrow> int \<times> 'v \<times> string" where
  "dfsP reason n off depth best =
     (let best0 = (if hasVal n \<and> depth > fst best then (depth, val n, pattern n) else best) in
      if off \<ge> length reason then best0
      else
        let c = reason ! off in
        if c < CHR ''a'' \<or> c > CHR ''z'' then best0
        else
          (case scan reason (off + 1) of
             None \<Rightarrow> best0
           | Some i \<Rightarrow>
               let seg = take (i - off) (drop off reason);
                   nextOff = skip_dot reason i;
                   best1 = (case map_of (children n) seg of
                              Some next \<Rightarrow> dfsP reason next nextOff (depth + 1) best0
                            | None \<Rightarrow> best0)
               in (case map_of (children n) ''*'' of
                     Some next \<Rightarrow> dfsP reason next nextOff (depth + 1) best1
                   | None \<Rightarrow> best1)))"
  by pat_completeness auto
termination
proof (relation "measure (\<lambda>(reason, n, off, depth, best). length reason - off)")
  show "wf (measure (\<lambda>(reason, n, off, depth, best). length reason - off))" by simp
qed (auto simp: skip_dot_def dest!: scan_ge)
declare dfsP.simps [simp del]

definition MatchWithPattern :: "'v::zero trie option \<Rightarrow> string \<Rightarrow> 'v \<times> bool \<times> string" where
  "MatchWithPattern t reason =
     (case t of
        None \<Rightarrow> (0, False, [])
      | Some n \<Rightarrow>
          (let (bestDepth, bestVal, bestPat) = dfsP reason n 0 0 (- 1, 0, []) in
           if bestDepth < 0 then (0, False, []) else (bestVal, True, bestPat)))"

section \<open>Mapper (package mapper: builder, options, defaults, freeze, mapper)\<close>

text \<open>
  \<open>code.Code\<close> and \<open>reason.Reason\<close> are Go string types; the mapper uses a code as a
  map key only. \<open>codes.Code\<close> of the gRPC library is a \<open>uint32\<close>, so a 32-bit word
  (\<open>codes.Internal\<close> is 13). A Go \<open>int\<close> holding an HTTP status or a builder value is
  an \<open>int\<close>: no arithmetic is done on it, and the conversion \<open>codes.Code(v)\<close> of an
  \<open>int\<close> is \<open>word_of_int\<close>, which truncates as Go does.
\<close>

type_synonym code = string

type_synonym grpc_code = "32 word"

text \<open>
  \<open>reason.Normalize\<close> calls \<open>strings.TrimSpace\<close>, \<open>strings.ToLower\<close> and
  \<open>strings.ReplaceAll\<close> of the Go standard library, which read a string as UTF-8.
  A Go string is a sequence of bytes, here a list of 8-bit characters, and it is ASCII
  text when every byte is below \<open>utf8.RuneSelf\<close>, that is 0x80.

  On ASCII text the two functions are written out: the white space of Unicode that is
  ASCII is tab, line feed, vertical tab, form feed, carriage return and space, and the
  letters of Unicode with a lower case that are ASCII are \<open>A\<close>..\<open>Z\<close>. On every
  other string (a code point from U+0080 on, such as the no-break space U+00A0 that
  \<open>TrimSpace\<close> trims or the Kelvin sign U+212A that \<open>ToLower\<close> maps to \<open>k\<close>,
  or a byte sequence that is not UTF-8, which \<open>ToLower\<close> replaces by U+FFFD) the
  result is that of the library, whose tables are not part of this repository: the
  record \<open>stdlib\<close> holds the two library functions, and every definition that
  normalizes carries it as its first argument. Nothing is assumed about the two fields,
  so a theorem about \<open>lib\<close> holds for the functions of the library whatever they
  return on such strings.

  \<open>ReplaceAll\<close> is needed for one-byte old and new strings only; replacing an ASCII
  byte by an ASCII byte is the same on bytes and on UTF-8 text.
\<close>

record stdlib =
  unicode_TrimSpace :: "string \<Rightarrow> string"
  unicode_ToLower :: "string \<Rightarrow> string"

definition is_ascii :: "string \<Rightarrow> bool" where
  "is_ascii s = list_all (\<lambda>c. c < CHR 0x80) s"

definition is_space :: "char \<Rightarrow> bool" where
  "is_space c = (c = CHR 0x09 \<or> c = CHR 0x0A \<or> c = CHR 0x0B \<or> c = CHR 0x0C \<or> c = CHR 0x0D \<or> c = CHR '' '')"

definition TrimSpace :: "stdlib \<Rightarrow> string \<Rightarrow> string" where
  "TrimSpace lib s =
     (if is_ascii s then rev (dropWhile is_space (rev (dropWhile is_space s)))
      else unicode_TrimSpace lib s)"

definition lower_char :: "char \<Rightarrow> char" where
  "lower_char c = (if CHR ''A'' \<le> c \<and> c \<le> CHR ''Z'' then char_of (of_char c + (32::nat)) else c)"

definition ToLower :: "stdlib \<Rightarrow> string \<Rightarrow> string" where
  "ToLower lib s = (if is_ascii s then map lower_char s else unicode_ToLower lib s)"

definition ReplaceAll :: "string \<Rightarrow> char \<Rightarrow> char \<Rightarrow> string" where
  "ReplaceAll s old new = map (\<lambda>c. if c = old then new else c) s"

text \<open>\<open>reason.Normalize\<close>: trim, return the empty string if nothing is left, lower-case,
  turn \<open>/\<close> into \<open>.\<close> and \<open>-\<close> into \<open>_\<close>.\<close>

definition Normalize :: "stdlib \<Rightarrow> string \<Rightarrow> string" where
  "Normalize lib s0 =
     (let s = TrimSpace lib s0 in
      if s = [] then []
      else ReplaceAll (ReplaceAll (ToLower lib s) (CHR ''/'') (CHR ''.'')) (CHR ''-'') (CHR ''_''))"

text \<open>\<open>validPrefixSegment\<close> of the mapper package: not empty; \<open>*\<close>; otherwise
  \<open>[a-z][a-z0-9_]*\<close>.\<close>

definition validPrefixSegment :: "string \<Rightarrow> bool" where
  "validPrefixSegment seg =
     (case seg of
        [] \<Rightarrow> False
      | c # cs \<Rightarrow>
          if seg = ''*'' then True
          else if c < CHR ''a'' \<or> c > CHR ''z'' then False
          else list_all is_rest cs)"

text \<open>The three errors of \<open>normalizeAndValidatePrefix\<close>: \<open>empty prefix\<close>,
  \<open>invalid segment %q\<close> and \<open>prefix cannot consist of '*' only\<close>.\<close>

datatype prefix_error = EmptyPrefix | InvalidSegment string | OnlyWildcards

text \<open>The loop of \<open>normalizeAndValidatePrefix\<close> over the segments; the second argument
  is the variable \<open>allWild\<close>. It returns at the first invalid segment.\<close>

fun check_segs :: "string list \<Rightarrow> bool \<Rightarrow> prefix_error + bool" where
  "check_segs [] allWild = Inr allWild"
| "check_segs (seg # segs) allWild =
     (if \<not> validPrefixSegment seg then Inl (InvalidSegment seg)
      else check_segs segs (if seg \<noteq> ''*'' then False else allWild))"

definition normalizeAndValidatePrefix :: "stdlib \<Rightarrow> string \<Rightarrow> prefix_error + string" where
  "normalizeAndValidatePrefix lib raw =
     (let p = Normalize lib raw in
      if p = [] then Inl EmptyPrefix
      else (case check_segs (Split p) True of
              Inl e \<Rightarrow> Inl e
            | Inr allWild \<Rightarrow> if allWild then Inl OnlyWildcards else Inr p))"

text \<open>\<open>prefixRule\<close> (fields \<open>prefix\<close> and \<open>val\<close>) and \<open>builder\<close>. The field names
  carry a prefix because the mapper has fields of the same names. The four maps of
  defaults and overrides are maps; the two maps from a code to its rule list are
  association lists with one entry per code, since \<open>New\<close> ranges over them.\<close>

record prefixRule =
  rule_prefix :: string
  rule_val :: int

record builder =
  b_httpDefaults :: "code \<rightharpoonup> int"
  b_grpcDefaults :: "code \<rightharpoonup> int"
  b_httpOverride :: "code \<rightharpoonup> int"
  b_grpcOverride :: "code \<rightharpoonup> int"
  b_httpPrefixes :: "(code \<times> prefixRule list) list"
  b_grpcPrefixes :: "(code \<times> prefixRule list) list"
  b_fallbackHTTP :: int
  b_fallbackGRPC :: grpc_code

definition newBuilder :: builder where
  "newBuilder = \<lparr> b_httpDefaults = Map.empty, b_grpcDefaults = Map.empty,
                  b_httpOverride = Map.empty, b_grpcOverride = Map.empty,
                  b_httpPrefixes = [], b_grpcPrefixes = [],
                  b_fallbackHTTP = 500, b_fallbackGRPC = 13 \<rparr>"

text \<open>The built-in tables \<open>defaultHTTP\<close> and \<open>defaultGRPC\<close>, with the values of the
  constants of \<open>code\<close>, \<open>net/http\<close> and \<open>codes\<close>.\<close>

definition defaultHTTP :: "(code \<times> int) list" where
  "defaultHTTP =
     [(''internal'', 500), (''unavailable'', 503), (''not_ready'', 503), (''draining'', 503),
      (''overloaded'', 503), (''dependency_failed'', 502), (''timeout'', 504), (''canceled'', 408),
      (''invalid'', 400), (''missing'', 400), (''unsupported'', 400), (''expired'', 400),
      (''deprecation_rejected'', 400), (''too_early'', 425),
      (''not_found'', 404), (''gone'', 410),
      (''already_exists'', 409), (''conflict'', 409), (''stale_version'', 409),
      (''precondition_failed'', 412),
      (''unauthenticated'', 401), (''invalid_credentials'', 401), (''token_invalid'', 401),
      (''token_expired'', 401), (''token_revoked'', 401), (''session_expired'', 401),
      (''permission_denied'', 403),
      (''throttled'', 429), (''rate_limited'', 429), (''quota_exceeded'', 429)]"

definition defaultGRPC :: "(code \<times> grpc_code) list" where
  "defaultGRPC =
     [(''internal'', 13),
      (''invalid'', 3), (''missing'', 3), (''unsupported'', 3), (''precondition_failed'', 9),
      (''dependency_failed'', 9), (''expired'', 9), (''too_early'', 9),
      (''not_found'', 5), (''gone'', 5), (''deprecation_rejected'', 9),
      (''already_exists'', 6), (''conflict'', 10), (''stale_version'', 10),
      (''unauthenticated'', 16), (''invalid_credentials'', 16), (''token_invalid'', 16),
      (''token_expired'', 16), (''token_revoked'', 16), (''session_expired'', 16),
      (''permission_denied'', 7),
      (''unavailable'', 14), (''not_ready'', 14), (''draining'', 14), (''overloaded'', 14),
      (''timeout'', 4), (''canceled'', 1),
      (''throttled'', 8), (''rate_limited'', 8), (''quota_exceeded'', 8)]"

text \<open>
  An \<open>Option\<close> is a function on the builder. The builder's fields are not exported, so
  the six constructors below are the only options a caller can make; an option is the
  constructor with its arguments, and \<open>apply_Option\<close> is the closure's body.
\<close>

datatype mapper_Option =
    WithHTTPDefault code int
  | WithGRPCDefault code int
  | WithHTTPOverride code int
  | WithGRPCOverride code int
  | WithHTTPPrefix code string int
  | WithGRPCPrefix code string int

definition append_rule :: "code \<Rightarrow> prefixRule \<Rightarrow> (code \<times> prefixRule list) list \<Rightarrow> (code \<times> prefixRule list) list" where
  "append_rule c r ps = AList.update c ((case map_of ps c of Some rs \<Rightarrow> rs | None \<Rightarrow> []) @ [r]) ps"

fun apply_Option :: "mapper_Option \<Rightarrow> builder \<Rightarrow> builder" where
  "apply_Option (WithHTTPDefault c http) b = b\<lparr>b_httpDefaults := (b_httpDefaults b)(c \<mapsto> http)\<rparr>"
| "apply_Option (WithGRPCDefault c grpc) b = b\<lparr>b_grpcDefaults := (b_grpcDefaults b)(c \<mapsto> grpc)\<rparr>"
| "apply_Option (WithHTTPOverride c http) b = b\<lparr>b_httpOverride := (b_httpOverride b)(c \<mapsto> http)\<rparr>"
| "apply_Option (WithGRPCOverride c grpc) b = b\<lparr>b_grpcOverride := (b_grpcOverride b)(c \<mapsto> grpc)\<rparr>"
| "apply_Option (WithHTTPPrefix c p http) b =
     b\<lparr>b_httpPrefixes := append_rule c \<lparr>rule_prefix = p, rule_val = http\<rparr> (b_httpPrefixes b)\<rparr>"
| "apply_Option (WithGRPCPrefix c p grpc) b =
     b\<lparr>b_grpcPrefixes := append_rule c \<lparr>rule_prefix = p, rule_val = grpc\<rparr> (b_grpcPrefixes b)\<rparr>"

text \<open>
  The errors of \<open>New\<close>, as values: the family, the pattern text put into the message,
  the code, and the wrapped cause. \<open>InvalidReasonPrefix\<close> is
  \<open>mapper: invalid HTTP reason-prefix %q for code %q: %w\<close> (with the raw text
  \<open>r.prefix\<close>), \<open>CannotInsertPrefix\<close> is \<open>mapper: cannot insert HTTP prefix %q for
  code %q: %w\<close> (with the normalized text), and likewise for gRPC.
\<close>

datatype family = HTTP | GRPC

datatype build_error =
    InvalidReasonPrefix family string code prefix_error
  | CannotInsertPrefix family string code trie_error

text \<open>The inner loop of \<open>New\<close> over the rules of one code: normalize and validate the
  prefix, insert it, and return at the first error. \<open>conv\<close> converts the builder's
  \<open>int\<close> to the value type of the trie (the identity for HTTP, \<open>codes.Code\<close> for gRPC).\<close>

fun insert_rules :: "stdlib \<Rightarrow> (int \<Rightarrow> 'v) \<Rightarrow> family \<Rightarrow> code \<Rightarrow> prefixRule list \<Rightarrow> 'v::zero trie
    \<Rightarrow> build_error + 'v trie" where
  "insert_rules lib conv fam c [] t = Inr t"
| "insert_rules lib conv fam c (r # rules) t =
     (case normalizeAndValidatePrefix lib (rule_prefix r) of
        Inl err \<Rightarrow> Inl (InvalidReasonPrefix fam (rule_prefix r) c err)
      | Inr p \<Rightarrow>
          (case Insert (Some t) p (conv (rule_val r)) of
             Inl err \<Rightarrow> Inl (CannotInsertPrefix fam p c err)
           | Inr t' \<Rightarrow> insert_rules lib conv fam c rules t'))"

text \<open>The outer loop of \<open>New\<close> over the codes that have rules, in the order of the list
  it is given. A trie pointer stored in the map is never nil here (\<open>Some t\<close>).\<close>

fun build_tries :: "stdlib \<Rightarrow> (int \<Rightarrow> 'v) \<Rightarrow> family \<Rightarrow> (code \<times> prefixRule list) list
    \<Rightarrow> (code \<rightharpoonup> 'v::zero trie option) \<Rightarrow> build_error + (code \<rightharpoonup> 'v trie option)" where
  "build_tries lib conv fam [] tries = Inr tries"
| "build_tries lib conv fam ((c, rules) # rest) tries =
     (if length rules = 0 then build_tries lib conv fam rest tries
      else (case insert_rules lib conv fam c rules segmenttrie_New of
              Inl err \<Rightarrow> Inl err
            | Inr t \<Rightarrow> build_tries lib conv fam rest (tries(c \<mapsto> Some t))))"

text \<open>The \<open>mapper\<close> struct. A map value of type \<open>*Trie\<close> may be nil, hence
  \<open>'v trie option\<close> as the value type of the trie maps.\<close>

record mapper =
  httpDefault :: "code \<rightharpoonup> int"
  grpcDefault :: "code \<rightharpoonup> grpc_code"
  httpOverride :: "code \<rightharpoonup> int"
  grpcOverride :: "code \<rightharpoonup> grpc_code"
  httpTrie :: "code \<rightharpoonup> int trie option"
  grpcTrie :: "code \<rightharpoonup> grpc_code trie option"
  fallbackHTTP :: int
  fallbackGRPC :: grpc_code

text \<open>\<open>codes.Code(v)\<close>, and the freeze functions: each copies its map (a nil map and an
  empty map read alike), the gRPC ones converting the values.\<close>

definition Code_of_int :: "int \<Rightarrow> grpc_code" where
  "Code_of_int v = word_of_int v"

definition freezeHTTPDefaults :: "(code \<rightharpoonup> int) \<Rightarrow> (code \<rightharpoonup> int)" where
  "freezeHTTPDefaults src = (\<lambda>k. src k)"

definition freezeGRPCDefaults :: "(code \<rightharpoonup> int) \<Rightarrow> (code \<rightharpoonup> grpc_code)" where
  "freezeGRPCDefaults src = (\<lambda>k. map_option Code_of_int (src k))"

definition freezeHTTPOverrides :: "(code \<rightharpoonup> int) \<Rightarrow> (code \<rightharpoonup> int)" where
  "freezeHTTPOverrides src = (\<lambda>k. src k)"

definition freezeGRPCOverrides :: "(code \<rightharpoonup> int) \<Rightarrow> (code \<rightharpoonup> grpc_code)" where
  "freezeGRPCOverrides src = (\<lambda>k. map_option Code_of_int (src k))"

definition freezeHTTPTrie :: "(code \<rightharpoonup> int trie option) \<Rightarrow> (code \<rightharpoonup> int trie option)" where
  "freezeHTTPTrie src = (\<lambda>k. src k)"

definition freezeGRPCTrie :: "(code \<rightharpoonup> grpc_code trie option) \<Rightarrow> (code \<rightharpoonup> grpc_code trie option)" where
  "freezeGRPCTrie src = (\<lambda>k. src k)"

text \<open>Step 1 of \<open>New\<close> copies the built-in tables into the builder (the gRPC values as
  \<open>int\<close>); step 2 applies the options in order.\<close>

definition seed :: "builder \<Rightarrow> builder" where
  "seed b = b\<lparr> b_httpDefaults := b_httpDefaults b ++ map_of defaultHTTP,
               b_grpcDefaults := b_grpcDefaults b ++ (\<lambda>k. map_option uint (map_of defaultGRPC k)) \<rparr>"

definition configure :: "mapper_Option list \<Rightarrow> builder" where
  "configure opts = foldl (\<lambda>b opt. apply_Option opt b) (seed newBuilder) opts"

text \<open>
  \<open>New\<close> ranges over the two maps of rule lists, and Go leaves the order of a range over
  a map unspecified. The order is a parameter: \<open>ordH\<close> and \<open>ordG\<close> turn the entries of
  the map into the sequence in which the loop visits them. \<open>lib\<close> holds the
  library functions behind \<open>reason.Normalize\<close>. \<open>New\<close> returns the error
  (\<open>Inl\<close>, no mapper) or the frozen mapper.
\<close>

type_synonym range_order = "(code \<times> prefixRule list) list \<Rightarrow> (code \<times> prefixRule list) list"

definition New :: "stdlib \<Rightarrow> range_order \<Rightarrow> range_order \<Rightarrow> mapper_Option list \<Rightarrow> build_error + mapper" where
  "New lib ordH ordG opts =
     (let b = configure opts in
      case build_tries lib (\<lambda>v. v) HTTP (ordH (b_httpPrefixes b)) Map.empty of
        Inl err \<Rightarrow> Inl err
      | Inr httpTrie' \<Rightarrow>
          (case build_tries lib Code_of_int GRPC (ordG (b_grpcPrefixes b)) Map.empty of
             Inl err \<Rightarrow> Inl err
           | Inr grpcTrie' \<Rightarrow>
               Inr \<lparr> httpDefault = freezeHTTPDefaults (b_httpDefaults b),
                     grpcDefault = freezeGRPCDefaults (b_grpcDefaults b),
                     httpOverride = freezeHTTPOverrides (b_httpOverride b),
                     grpcOverride = freezeGRPCOverrides (b_grpcOverride b),
                     httpTrie = freezeHTTPTrie httpTrie',
                     grpcTrie = freezeGRPCTrie grpcTrie',
                     fallbackHTTP = b_fallbackHTTP b,
                     fallbackGRPC = b_fallbackGRPC b \<rparr>))"

text \<open>Step 2 of \<open>HTTPStatus\<close> and of \<open>GRPCStatus\<close> (the same code for both value
  types): the value \<open>Match\<close> finds in the trie of the code, if the map has a non-nil
  trie for it.\<close>

definition trie_tier :: "'v::zero trie option option \<Rightarrow> string \<Rightarrow> 'v option" where
  "trie_tier found r =
     (case found of
        Some (Some idx) \<Rightarrow> (case Match (Some idx) r of (v, ok) \<Rightarrow> if ok then Some v else None)
      | _ \<Rightarrow> None)"

text \<open>\<open>HTTPStatus\<close> and \<open>GRPCStatus\<close>: override, trie, default, then the constant 500 or
  \<open>codes.Internal\<close>.\<close>

definition HTTPStatus :: "mapper \<Rightarrow> code \<Rightarrow> string \<Rightarrow> int" where
  "HTTPStatus m c r =
     (case httpOverride m c of
        Some v \<Rightarrow> v
      | None \<Rightarrow>
          (case trie_tier (httpTrie m c) r of
             Some v \<Rightarrow> v
           | None \<Rightarrow>
               (case httpDefault m c of
                  Some v \<Rightarrow> v
                | None \<Rightarrow> 500)))"

definition GRPCStatus :: "mapper \<Rightarrow> code \<Rightarrow> string \<Rightarrow> grpc_code" where
  "GRPCStatus m c r =
     (case grpcOverride m c of
        Some v \<Rightarrow> v
      | None \<Rightarrow>
          (case trie_tier (grpcTrie m c) r of
             Some v \<Rightarrow> v
           | None \<Rightarrow>
               (case grpcDefault m c of
                  Some v \<Rightarrow> v
                | None \<Rightarrow> 13)))"

text \<open>
  The verbs of \<open>fmt.Sprintf\<close> that \<open>Explain\<close> uses. \<open>%d\<close> is \<open>fmt_d\<close>, the decimal
  digits with a minus sign for a negative number. \<open>%q\<close> (Go's quoting of a string) and
  \<open>strings.ToUpper(v.String())\<close> of a gRPC code belong to libraries outside the
  repository and are the parameters \<open>q\<close> and \<open>upperName\<close> of the functions below.
\<close>

definition digit_char :: "nat \<Rightarrow> char" where
  "digit_char n = char_of (48 + n)"

function digits :: "nat \<Rightarrow> string" where
  "digits n = (if n < 10 then [digit_char n] else digits (n div 10) @ [digit_char (n mod 10)])"
  by pat_completeness auto
termination
  by (relation "measure (\<lambda>n. n)") auto
declare digits.simps [simp del]

definition fmt_d :: "int \<Rightarrow> string" where
  "fmt_d i = (if i < 0 then CHR ''-'' # digits (nat (- i)) else digits (nat i))"

text \<open>Step 2 of \<open>explainHTTP\<close> and \<open>explainGRPC\<close>: value and pattern from
  \<open>MatchWithPattern\<close>.\<close>

definition pattern_tier :: "'v::zero trie option option \<Rightarrow> string \<Rightarrow> ('v \<times> string) option" where
  "pattern_tier found r =
     (case found of
        Some (Some idx) \<Rightarrow>
          (case MatchWithPattern (Some idx) r of (v, ok2, pat) \<Rightarrow> if ok2 then Some (v, pat) else None)
      | _ \<Rightarrow> None)"

text \<open>\<open>explainHTTP\<close> returns the source and the formatted line. The fallback line has no
  colon after \<open>http\<close> in the source, and prints the field \<open>fallbackHTTP\<close>.\<close>

definition explainHTTP :: "(string \<Rightarrow> string) \<Rightarrow> mapper \<Rightarrow> code \<Rightarrow> string \<Rightarrow> string \<times> string" where
  "explainHTTP q m c r =
     (case httpOverride m c of
        Some v \<Rightarrow> (''override'', ''http: source=override -> '' @ fmt_d v)
      | None \<Rightarrow>
          (case pattern_tier (httpTrie m c) r of
             Some (v, pat) \<Rightarrow>
               (''prefix'', ''http: source=prefix pattern='' @ q pat @ '' -> '' @ fmt_d v)
           | None \<Rightarrow>
               (case httpDefault m c of
                  Some v \<Rightarrow> (''default'', ''http: source=default -> '' @ fmt_d v)
                | None \<Rightarrow> (''fallback'', ''http source=fallback -> '' @ fmt_d (fallbackHTTP m)))))"

text \<open>\<open>%s(%d)\<close> of a gRPC code, and \<open>explainGRPC\<close>.\<close>

definition fmt_code :: "(grpc_code \<Rightarrow> string) \<Rightarrow> grpc_code \<Rightarrow> string" where
  "fmt_code upperName v = upperName v @ ''('' @ fmt_d (uint v) @ '')''"

definition explainGRPC :: "(string \<Rightarrow> string) \<Rightarrow> (grpc_code \<Rightarrow> string) \<Rightarrow> mapper \<Rightarrow> code \<Rightarrow> string
    \<Rightarrow> string \<times> string" where
  "explainGRPC q upperName m c r =
     (case grpcOverride m c of
        Some v \<Rightarrow> (''override'', ''grpc: source=override -> '' @ fmt_code upperName v)
      | None \<Rightarrow>
          (case pattern_tier (grpcTrie m c) r of
             Some (v, pat) \<Rightarrow>
               (''prefix'', ''grpc: source=prefix pattern='' @ q pat @ '' -> '' @ fmt_code upperName v)
           | None \<Rightarrow>
               (case grpcDefault m c of
                  Some v \<Rightarrow> (''default'', ''grpc: source=default -> '' @ fmt_code upperName v)
                | None \<Rightarrow>
                    (''fallback'', ''grpc: source=fallback -> '' @ fmt_code upperName (fallbackGRPC m)))))"

text \<open>\<open>Explain\<close>: the header line, then for each family the line of the explain function
  when its source is one of the four known ones (the \<open>switch\<close>), each written with
  \<open>Fprintln\<close>; one trailing line feed is trimmed at the end.\<close>

definition known_source :: "string \<Rightarrow> bool" where
  "known_source src = (src = ''override'' \<or> src = ''prefix'' \<or> src = ''default'' \<or> src = ''fallback'')"

definition TrimSuffix_newline :: "string \<Rightarrow> string" where
  "TrimSuffix_newline s = (if s \<noteq> [] \<and> last s = CHR 0x0A then butlast s else s)"

definition Explain :: "(string \<Rightarrow> string) \<Rightarrow> (grpc_code \<Rightarrow> string) \<Rightarrow> mapper \<Rightarrow> code \<Rightarrow> string \<Rightarrow> string" where
  "Explain q upperName m c r =
     (let b0 = ''code='' @ q c @ '' reason='' @ q r @ [CHR 0x0A];
          b1 = (case explainHTTP q m c r of
                  (src, httpLine) \<Rightarrow>
                    if known_source src then b0 @ httpLine @ [CHR 0x0A]
                    else b0 @ ''http:  source=unknown'' @ [CHR 0x0A]);
          b2 = (case explainGRPC q upperName m c r of
                  (src, grpcLine) \<Rightarrow>
                    if known_source src then b1 @ grpcLine @ [CHR 0x0A]
                    else b1 @ ''grpc:  source=unknown'' @ [CHR 0x0A])
      in TrimSuffix_newline b2)"

section \<open>Reading the traversal: segments, registered patterns, candidates\<close>

text \<open>
  The definitions of this section are not in the source; they name what the traversal
  reads and which nodes it meets, and the lemmas below tie them to \<open>dfs\<close>.

  \<open>path_segs reason off\<close> is the list of segments the traversal parses from offset
  \<open>off\<close> on, by the same tests as \<open>dfs\<close>: it ends at the end of the reason and at the
  first invalid segment. \<open>segs_of\<close> computes the same list by recursion on the
  characters, without offsets.
\<close>

function path_segs :: "string \<Rightarrow> nat \<Rightarrow> string list" where
  "path_segs reason off =
     (if off \<ge> length reason then []
      else
        let c = reason ! off in
        if c < CHR ''a'' \<or> c > CHR ''z'' then []
        else
          (case scan reason (off + 1) of
             None \<Rightarrow> []
           | Some i \<Rightarrow> take (i - off) (drop off reason) # path_segs reason (skip_dot reason i)))"
  by pat_completeness auto
termination
proof (relation "measure (\<lambda>(reason, off). length reason - off)")
  show "wf (measure (\<lambda>(reason, off). length reason - off))" by simp
qed (auto simp: skip_dot_def dest!: scan_ge)
declare path_segs.simps [simp del]

function segs_of :: "string \<Rightarrow> string list" where
  "segs_of [] = []"
| "segs_of (c # cs) =
     (if c < CHR ''a'' \<or> c > CHR ''z'' then []
      else (case dropWhile is_rest cs of
              [] \<Rightarrow> [c # takeWhile is_rest cs]
            | d # ds \<Rightarrow> if d = CHR ''.'' then (c # takeWhile is_rest cs) # segs_of ds else []))"
  by pat_completeness auto
termination
proof (relation "measure length")
  fix c :: char and cs d ds
  assume "dropWhile is_rest cs = d # ds"
  then have "length (d # ds) \<le> length cs" by (metis length_dropWhile_le)
  then show "(ds, c # cs) \<in> measure length" by simp
qed simp

text \<open>\<open>strings.Join(segs, ".")\<close>: the dotted path of a list of segments.\<close>

fun Join :: "string list \<Rightarrow> string" where
  "Join [] = []"
| "Join [s] = s"
| "Join (s # t # ss) = s @ ''.'' @ Join (t # ss)"

text \<open>\<open>mark\<close> is the update of \<open>bestDepth\<close>, \<open>bestVal\<close> and \<open>bestPat\<close> at a node,
  and \<open>walk\<close> is the traversal over a list of segments instead of offsets into the
  reason. \<open>proj\<close> forgets the pattern.\<close>

definition mark :: "'v trie \<Rightarrow> int \<Rightarrow> int \<times> 'v \<times> string \<Rightarrow> int \<times> 'v \<times> string" where
  "mark n depth best = (if hasVal n \<and> depth > fst best then (depth, val n, pattern n) else best)"

fun walk :: "string list \<Rightarrow> 'v trie \<Rightarrow> int \<Rightarrow> int \<times> 'v \<times> string \<Rightarrow> int \<times> 'v \<times> string" where
  "walk [] n depth best = mark n depth best"
| "walk (s # ss) n depth best =
     (let best0 = mark n depth best;
          best1 = (case map_of (children n) s of
                     Some next \<Rightarrow> walk ss next (depth + 1) best0
                   | None \<Rightarrow> best0)
      in (case map_of (children n) ''*'' of
            Some next \<Rightarrow> walk ss next (depth + 1) best1
          | None \<Rightarrow> best1))"

definition proj :: "int \<times> 'v \<times> string \<Rightarrow> int \<times> 'v" where
  "proj b = (fst b, fst (snd b))"

text \<open>
  \<open>cands segs n depth\<close> lists, in the order in which the traversal meets them, the
  depth, value and pattern of the value-carrying nodes reached from \<open>n\<close>: the node
  itself, then the subtree of the literal edge, then the subtree of the \<open>*\<close> edge.
  \<open>keep\<close> is the comparison \<open>depth > bestDepth\<close> against one candidate, and
  \<open>best_of\<close> folds it from the initial \<open>bestDepth = -1\<close>.
\<close>

fun cands :: "string list \<Rightarrow> 'v trie \<Rightarrow> int \<Rightarrow> (int \<times> 'v \<times> string) list" where
  "cands [] n depth = (if hasVal n then [(depth, val n, pattern n)] else [])"
| "cands (s # ss) n depth =
     (if hasVal n then [(depth, val n, pattern n)] else [])
     @ (case map_of (children n) s of Some next \<Rightarrow> cands ss next (depth + 1) | None \<Rightarrow> [])
     @ (case map_of (children n) ''*'' of Some next \<Rightarrow> cands ss next (depth + 1) | None \<Rightarrow> [])"

definition keep :: "int \<times> 'v \<times> string \<Rightarrow> int \<times> 'v \<times> string \<Rightarrow> int \<times> 'v \<times> string" where
  "keep best c = (if fst c > fst best then c else best)"

definition best_of :: "(int \<times> 'v::zero \<times> string) list \<Rightarrow> int \<times> 'v \<times> string" where
  "best_of cs = foldl keep (- 1, 0, []) cs"

text \<open>
  \<open>lookup t pat\<close> is the node at the end of the token path \<open>pat\<close> (a token is a
  literal segment or \<open>*\<close>), \<open>entry t pat\<close> the value and pattern text stored there
  when the node carries a value, and \<open>stored_pattern\<close> the pattern field of the node
  (empty when there is no node). A pattern is registered in \<open>t\<close> when
  \<open>entry t pat\<close> is not \<open>None\<close>.
\<close>

fun lookup :: "'v trie \<Rightarrow> string list \<Rightarrow> 'v trie option" where
  "lookup n [] = Some n"
| "lookup n (p # ps) = (case map_of (children n) p of None \<Rightarrow> None | Some next \<Rightarrow> lookup next ps)"

definition entry :: "'v trie \<Rightarrow> string list \<Rightarrow> ('v \<times> string) option" where
  "entry t pat = (case lookup t pat of
                    None \<Rightarrow> None
                  | Some m \<Rightarrow> if hasVal m then Some (val m, pattern m) else None)"

definition stored_pattern :: "'v trie \<Rightarrow> string list \<Rightarrow> string" where
  "stored_pattern n segs = (case lookup n segs of Some m \<Rightarrow> pattern m | None \<Rightarrow> [])"

text \<open>\<open>pmatch pat segs\<close>: the pattern matches a segment-aligned prefix of the path, each
  token being the segment at its position or \<open>*\<close>, which stands for exactly one
  segment.\<close>

fun pmatch :: "string list \<Rightarrow> string list \<Rightarrow> bool" where
  "pmatch [] segs = True"
| "pmatch (p # ps) [] = False"
| "pmatch (p # ps) (s # ss) = ((p = s \<or> p = ''*'') \<and> pmatch ps ss)"

text \<open>A sequence of \<open>Insert\<close> calls that stops at the first error, as the tests write
  them.\<close>

fun insert_all :: "'v::zero trie \<Rightarrow> (string \<times> 'v) list \<Rightarrow> trie_error + 'v trie" where
  "insert_all t [] = Inr t"
| "insert_all t ((p, v) # rules) =
     (case Insert (Some t) p v of Inl e \<Rightarrow> Inl e | Inr t' \<Rightarrow> insert_all t' rules)"

text \<open>Two properties of the tries of a mapper: no root carries a value, and every stored
  pattern text is the dotted text of the path of its node.\<close>

definition roots_plain :: "(code \<rightharpoonup> 'v trie option) \<Rightarrow> bool" where
  "roots_plain tries = (\<forall>c t. tries c = Some (Some t) \<longrightarrow> \<not> hasVal t)"

definition canonical :: "'v trie \<Rightarrow> bool" where
  "canonical t = (\<forall>path. (\<forall>v pat. entry t path = Some (v, pat) \<longrightarrow> pat = Join path)
                      \<and> (entry t path = None \<longrightarrow> stored_pattern t path = []))"

definition all_canonical :: "(code \<rightharpoonup> 'v trie option) \<Rightarrow> bool" where
  "all_canonical tries = (\<forall>c t. tries c = Some (Some t) \<longrightarrow> canonical t)"

text \<open>\<open>has_rule ps c raw\<close>: the rule lists hold a rule of code \<open>c\<close> with the raw
  pattern \<open>raw\<close>.\<close>

definition has_rule :: "(code \<times> prefixRule list) list \<Rightarrow> code \<Rightarrow> string \<Rightarrow> bool" where
  "has_rule ps c raw = (\<exists>rules r. (c, rules) \<in> set ps \<and> r \<in> set rules \<and> rule_prefix r = raw)"

text \<open>
  A malformed pattern, in the words of the specification: empty after normalization,
  or with an empty segment, or with a segment that is not the wildcard and fails the
  literal syntax \<open>[a-z][a-z0-9_]*\<close>, or made of wildcard segments only.
\<close>

definition literal_syntax :: "string \<Rightarrow> bool" where
  "literal_syntax seg =
     (seg \<noteq> [] \<and> CHR ''a'' \<le> hd seg \<and> hd seg \<le> CHR ''z''
      \<and> list_all (\<lambda>c. (CHR ''a'' \<le> c \<and> c \<le> CHR ''z'') \<or> (CHR ''0'' \<le> c \<and> c \<le> CHR ''9'')
                      \<or> c = CHR ''_'') (tl seg))"

definition malformed :: "string \<Rightarrow> bool" where
  "malformed p =
     (p = []
      \<or> list_ex (\<lambda>seg. seg = []) (Split p)
      \<or> list_ex (\<lambda>seg. seg \<noteq> [] \<and> seg \<noteq> ''*'' \<and> \<not> literal_syntax seg) (Split p)
      \<or> list_all (\<lambda>seg. seg = ''*'') (Split p))"

section \<open>Example tries and mappers\<close>

text \<open>The tries of the specification's examples, written out; the theorems below state
  which insertions build them.\<close>

definition trie_depth :: "int trie" where
  "trie_depth =
     Trie [(''a'', Trie [(''*'', Trie [(''c'', Trie [] True 7 ''a.*.c'')] False 0 []),
                         (''b'', Trie [] True 1 ''a.b'')] False 0 [])] False 0 []"

definition trie_auth :: "int trie" where
  "trie_auth =
     Trie [(''auth'',
            Trie [(''*'', Trie [(''verify'', Trie [] True 1 ''auth.*.verify'')] False 0 []),
                  (''jwt'', Trie [(''verify'', Trie [] True 2 ''auth.jwt.verify'')] False 0 [])]
                 False 0 [])] False 0 []"

definition trie_wild :: "int trie" where
  "trie_wild =
     Trie [(''a'', Trie [(''*'', Trie [] True 1 ''a.*''), (''b'', Trie [] True 2 ''a.b'')]
                        False 0 [])] False 0 []"

definition trie_star :: "int trie" where
  "trie_star = Trie [(''a'', Trie [(''*'', Trie [] True 1 ''a.*'')] False 0 [])] False 0 []"

definition trie_pg :: "int trie" where
  "trie_pg = Trie [(''storage'', Trie [(''pg'', Trie [] True 503 ''storage.pg'')] False 0 [])] False 0 []"

definition trie_pg2 :: "int trie" where
  "trie_pg2 = Trie [(''storage'', Trie [(''pg'', Trie [] True 599 ''storage.pg'')] False 0 [])] False 0 []"

text \<open>A configuration with a default, an override and a prefix rule for each family, the
  mapper \<open>New\<close> builds from it, and sample renderings for \<open>%q\<close> and for the name of a
  gRPC code. The patterns of the examples are ASCII text, on which normalization does not
  consult the library record; \<open>stdlib_ex\<close> is a value to close the terms with, not a
  description of the library.\<close>

definition opts_ex :: "mapper_Option list" where
  "opts_ex = [WithHTTPDefault ''unavailable'' 503,
              WithHTTPPrefix ''unavailable'' ''storage.pg'' 599,
              WithHTTPOverride ''canceled'' 408,
              WithGRPCPrefix ''unavailable'' ''Storage/PG'' 14]"

definition stdlib_ex :: stdlib where
  "stdlib_ex = \<lparr> unicode_TrimSpace = (\<lambda>s. s), unicode_ToLower = (\<lambda>s. s) \<rparr>"

definition mapper_ex :: mapper where
  "mapper_ex = projr (New stdlib_ex (\<lambda>xs. xs) rev opts_ex)"

definition quote_ex :: "string \<Rightarrow> string" where
  "quote_ex s = CHR 0x22 # s @ [CHR 0x22]"

definition name_ex :: "grpc_code \<Rightarrow> string" where
  "name_ex v = (if v = 14 then ''UNAVAILABLE'' else if v = 13 then ''INTERNAL'' else ''CODE'')"

section \<open>The traversal is a fold over the candidates\<close>

lemma dfsP_walk: "dfsP reason n off depth best = walk (path_segs reason off) n depth best"
proof (induction reason n off depth best rule: dfsP.induct)
  case (1 reason n off depth best)
  show ?case
  proof (cases "off \<ge> length reason")
    case True
    then show ?thesis
      by (subst dfsP.simps, subst path_segs.simps) (simp add: mark_def)
  next
    case off: False
    show ?thesis
    proof (cases "reason ! off < CHR ''a'' \<or> reason ! off > CHR ''z''")
      case True
      with off show ?thesis
        by (subst dfsP.simps, subst path_segs.simps) (simp add: mark_def)
    next
      case ch: False
      show ?thesis
      proof (cases "scan reason (off + 1)")
        case None
        with off ch show ?thesis
          by (subst dfsP.simps, subst path_segs.simps) (simp add: mark_def)
      next
        case (Some i)
        note IH1 = 1(1)[OF refl off refl ch Some refl refl]
        note IH2 = 1(2)[OF refl off refl ch Some refl refl refl]
        have ps: "path_segs reason off =
            take (i - off) (drop off reason) # path_segs reason (skip_dot reason i)"
          using off ch Some by (subst path_segs.simps) simp
        show ?thesis
          using off ch Some
          by (subst dfsP.simps)
             (simp add: ps IH1 IH2 Let_def mark_def split: option.splits split del: if_split)
      qed
    qed
  qed
qed

lemma dfs_dfsP: "dfs reason n off depth (proj best) = proj (dfsP reason n off depth best)"
proof (induction reason n off depth best rule: dfsP.induct)
  case (1 reason n off depth best)
  let ?b0 = "if hasVal n \<and> depth > fst best then (depth, val n, pattern n) else best"
  have b0: "(if hasVal n \<and> depth > fst (proj best) then (depth, val n) else proj best) = proj ?b0"
    by (simp add: proj_def)
  show ?case
  proof (cases "off \<ge> length reason")
    case True
    then show ?thesis
      by (subst dfsP.simps, subst dfs.simps) (simp add: proj_def)
  next
    case off: False
    show ?thesis
    proof (cases "reason ! off < CHR ''a'' \<or> reason ! off > CHR ''z''")
      case True
      with off show ?thesis
        by (subst dfsP.simps, subst dfs.simps) (simp add: proj_def)
    next
      case ch: False
      show ?thesis
      proof (cases "scan reason (off + 1)")
        case None
        with off ch show ?thesis
          by (subst dfsP.simps, subst dfs.simps) (simp add: proj_def)
      next
        case (Some i)
        note IH1 = 1(1)[OF refl off refl ch Some refl refl]
        note IH2 = 1(2)[OF refl off refl ch Some refl refl refl]
        show ?thesis
        proof (cases "map_of (children n) (take (i - off) (drop off reason))")
          case None
          show ?thesis
            using off ch Some None IH2
            by (subst dfsP.simps, subst dfs.simps)
               (simp add: b0 Let_def split: option.splits split del: if_split)
        next
          case (Some c)
          show ?thesis
            using off ch \<open>scan reason (off + 1) = Some i\<close> Some IH2 IH1
            by (subst dfsP.simps, subst dfs.simps)
               (simp add: b0 Let_def split: option.splits split del: if_split)
        qed
      qed
    qed
  qed
qed

lemma walk_cands: "walk segs n depth best = foldl keep best (cands segs n depth)"
  by (induction segs arbitrary: n depth best)
     (auto simp: mark_def keep_def Let_def split: option.splits)

lemma foldl_keep_ge: "fst best \<le> fst (foldl keep best cs)"
proof (induction cs arbitrary: best)
  case (Cons c cs)
  have "fst best \<le> fst (keep best c)" by (simp add: keep_def)
  also have "\<dots> \<le> fst (foldl keep (keep best c) cs)" by (rule Cons.IH)
  finally show ?case by simp
qed simp

lemma foldl_keep_same: "fst (foldl keep best cs) = fst best \<Longrightarrow> foldl keep best cs = best"
proof (induction cs arbitrary: best)
  case (Cons c cs)
  have 1: "fst best \<le> fst (keep best c)" by (simp add: keep_def)
  have 2: "fst (keep best c) \<le> fst (foldl keep (keep best c) cs)" by (rule foldl_keep_ge)
  from Cons.prems 1 2 have 3: "fst (foldl keep (keep best c) cs) = fst (keep best c)" by simp
  then have 4: "foldl keep (keep best c) cs = keep best c" by (rule Cons.IH)
  with Cons.prems have "fst (keep best c) = fst best" by simp
  then have "keep best c = best" by (simp add: keep_def split: if_splits)
  with 4 show ?case by simp
qed simp

lemma foldl_keep_max: "c \<in> set cs \<Longrightarrow> fst c \<le> fst (foldl keep best cs)"
proof (induction cs arbitrary: best)
  case (Cons a cs)
  show ?case
  proof (cases "c = a")
    case True
    have "fst c \<le> fst (keep best c)" by (simp add: keep_def)
    also have "\<dots> \<le> fst (foldl keep (keep best c) cs)" by (rule foldl_keep_ge)
    finally show ?thesis using True by simp
  next
    case False
    with Cons.prems have "c \<in> set cs" by simp
    then show ?thesis using Cons.IH by simp
  qed
qed simp

text \<open>first candidate of the winning depth\<close>

lemma foldl_keep_first:
  "fst best < fst (foldl keep best cs) \<Longrightarrow>
   find (\<lambda>c. fst c = fst (foldl keep best cs)) cs = Some (foldl keep best cs)"
proof (induction cs arbitrary: best)
  case (Cons a cs)
  let ?r = "foldl keep (keep best a) cs"
  have r: "foldl keep best (a # cs) = ?r" by simp
  show ?case
  proof (cases "fst a = fst ?r")
    case True
    have "fst best < fst a" using Cons.prems True by simp
    then have k: "keep best a = a" by (simp add: keep_def)
    with True have "?r = a" using foldl_keep_same[of a cs] by simp
    with True show ?thesis by simp
  next
    case False
    have ge: "fst (keep best a) \<le> fst ?r" by (rule foldl_keep_ge)
    have "fst (keep best a) < fst ?r"
    proof (rule ccontr)
      assume "\<not> fst (keep best a) < fst ?r"
      with ge have "fst ?r = fst (keep best a)" by simp
      then have e: "?r = keep best a" by (rule foldl_keep_same)
      have "fst best < fst ?r" using Cons.prems by simp
      with False show False unfolding e by (simp add: keep_def split: if_splits)
    qed
    then have "find (\<lambda>c. fst c = fst ?r) cs = Some ?r" by (rule Cons.IH)
    with False show ?thesis by simp
  qed
qed simp

lemma cands_iff:
  "(d, v, pt) \<in> set (cands segs n depth) \<longleftrightarrow>
   (\<exists>pat m. lookup n pat = Some m \<and> hasVal m \<and> pmatch pat segs
      \<and> d = depth + int (length pat) \<and> v = val m \<and> pt = pattern m)"
  (is "?L segs n depth \<longleftrightarrow> ?R segs n depth")
proof (induction segs arbitrary: n depth)
  case Nil
  show ?case
  proof
    assume "?L [] n depth"
    then have "lookup n [] = Some n \<and> hasVal n \<and> pmatch [] [] \<and> d = depth + int (length ([]::string list)) \<and> v = val n \<and> pt = pattern n"
      by (simp split: if_splits)
    then show "?R [] n depth" by blast
  next
    assume "?R [] n depth"
    then obtain pat m where h: "lookup n pat = Some m" "hasVal m" "pmatch pat []"
      "d = depth + int (length pat)" "v = val m" "pt = pattern m" by blast
    from h(3) have "pat = []" by (cases pat) simp_all
    with h show "?L [] n depth" by simp
  qed
next
  case (Cons s ss)
  show ?case
  proof
    assume L: "?L (s # ss) n depth"
    then have "(hasVal n \<and> d = depth \<and> v = val n \<and> pt = pattern n)
        \<or> (\<exists>c. map_of (children n) s = Some c \<and> (d, v, pt) \<in> set (cands ss c (depth + 1)))
        \<or> (\<exists>c. map_of (children n) ''*'' = Some c \<and> (d, v, pt) \<in> set (cands ss c (depth + 1)))"
      by (auto split: if_splits option.splits)
    then consider (own) "hasVal n" "d = depth" "v = val n" "pt = pattern n"
      | (lit) c where "map_of (children n) s = Some c" "(d, v, pt) \<in> set (cands ss c (depth + 1))"
      | (wild) c where "map_of (children n) ''*'' = Some c" "(d, v, pt) \<in> set (cands ss c (depth + 1))"
      by blast
    then show "?R (s # ss) n depth"
    proof cases
      case own
      then have "lookup n [] = Some n \<and> hasVal n \<and> pmatch [] (s # ss) \<and> d = depth + int (length ([]::string list)) \<and> v = val n \<and> pt = pattern n"
        by simp
      then show ?thesis by blast
    next
      case lit
      from lit(2) obtain pat m where h: "lookup c pat = Some m" "hasVal m" "pmatch pat ss"
        "d = depth + 1 + int (length pat)" "v = val m" "pt = pattern m"
        using Cons.IH[of c "depth + 1"] by blast
      with lit(1) have "lookup n (s # pat) = Some m \<and> hasVal m \<and> pmatch (s # pat) (s # ss) \<and> d = depth + int (length (s # pat)) \<and> v = val m \<and> pt = pattern m"
        by simp
      then show ?thesis by blast
    next
      case wild
      from wild(2) obtain pat m where h: "lookup c pat = Some m" "hasVal m" "pmatch pat ss"
        "d = depth + 1 + int (length pat)" "v = val m" "pt = pattern m"
        using Cons.IH[of c "depth + 1"] by blast
      with wild(1) have "lookup n (''*'' # pat) = Some m \<and> hasVal m \<and> pmatch (''*'' # pat) (s # ss) \<and> d = depth + int (length (''*'' # pat)) \<and> v = val m \<and> pt = pattern m"
        by simp
      then show ?thesis by blast
    qed
  next
    assume "?R (s # ss) n depth"
    then obtain pat m where h: "lookup n pat = Some m" "hasVal m" "pmatch pat (s # ss)"
      "d = depth + int (length pat)" "v = val m" "pt = pattern m" by blast
    show "?L (s # ss) n depth"
    proof (cases pat)
      case Nil
      with h show ?thesis by simp
    next
      case (Cons p ps)
      with h(1) obtain c where c: "map_of (children n) p = Some c" "lookup c ps = Some m"
        by (auto split: option.splits)
      from h(3) Cons have p: "p = s \<or> p = ''*''" and ps: "pmatch ps ss" by simp_all
      have "(d, v, pt) \<in> set (cands ss c (depth + 1))"
        using Cons.IH[of c "depth + 1"] c(2) h(2) ps h(4,5,6) Cons by auto
      with p c(1) show ?thesis by auto
    qed
  qed
qed

lemma dfsP_cands:
  "dfsP reason n off depth best = foldl keep best (cands (path_segs reason off) n depth)"
  by (simp add: dfsP_walk walk_cands)

lemma Match_MatchWithPattern:
  "Match t reason = (case MatchWithPattern t reason of (v, ok, pt) \<Rightarrow> (v, ok))"
proof (cases t)
  case None
  then show ?thesis by (simp add: Match_def MatchWithPattern_def)
next
  case (Some n)
  have "dfs reason n 0 0 (proj (- 1, 0, [])) = proj (dfsP reason n 0 0 (- 1, 0, []))"
    by (rule dfs_dfsP)
  then have "dfs reason n 0 0 (- 1, 0) = proj (dfsP reason n 0 0 (- 1, 0, []))"
    by (simp add: proj_def)
  then show ?thesis
    using Some by (simp add: Match_def MatchWithPattern_def proj_def split: prod.splits)
qed

section \<open>The segments Match reads\<close>

lemma scan_dropWhile:
  "i \<le> length reason \<Longrightarrow>
   scan reason i =
     (case dropWhile is_rest (drop i reason) of
        [] \<Rightarrow> Some (length reason)
      | d # ds \<Rightarrow> if d = CHR ''.'' then Some (length reason - length (d # ds)) else None)"
proof (induction reason i rule: scan.induct)
  case (1 reason i)
  show ?case
  proof (cases "i < length reason")
    case False
    with 1(2) show ?thesis by (subst scan.simps) simp
  next
    case True
    then have dr: "drop i reason = reason ! i # drop (Suc i) reason"
      by (simp add: Cons_nth_drop_Suc)
    show ?thesis
    proof (cases "reason ! i = CHR ''.''")
      case dot: True
      have "\<not> is_rest (CHR ''.'')" by (simp add: is_rest_def)
      with True dot dr show ?thesis by (subst scan.simps) (simp add: Let_def)
    next
      case nodot: False
      show ?thesis
      proof (cases "is_rest (reason ! i)")
        case False
        have "scan reason i = None"
          using True nodot False by (subst scan.simps) (simp add: Let_def is_rest_def)
        moreover have "dropWhile is_rest (drop i reason) = reason ! i # drop (Suc i) reason"
          using False by (simp add: dr)
        ultimately show ?thesis using nodot by simp
      next
        case r: True
        have IH: "scan reason (i + 1) = (case dropWhile is_rest (drop (i + 1) reason) of
            [] \<Rightarrow> Some (length reason)
          | d # ds \<Rightarrow> if d = CHR ''.'' then Some (length reason - length (d # ds)) else None)"
        proof -
          have nr: "\<not> \<not> ((reason ! i \<ge> CHR ''a'' \<and> reason ! i \<le> CHR ''z'')
              \<or> (reason ! i \<ge> CHR ''0'' \<and> reason ! i \<le> CHR ''9'') \<or> reason ! i = CHR ''_'')"
            using r by (simp add: is_rest_def)
          show ?thesis using 1(1)[OF True refl nodot nr] True by simp
        qed
        have "scan reason i = scan reason (i + 1)"
          using True nodot r by (subst scan.simps) (simp add: Let_def is_rest_def)
        with IH r dr show ?thesis by simp
      qed
    qed
  qed
qed

lemma path_segs_segs_of: "path_segs reason off = segs_of (drop off reason)"
proof (induction reason off rule: path_segs.induct)
  case (1 reason off)
  show ?case
  proof (cases "off \<ge> length reason")
    case True
    then show ?thesis by (subst path_segs.simps) simp
  next
    case off: False
    then have dr: "drop off reason = reason ! off # drop (Suc off) reason"
      by (simp add: Cons_nth_drop_Suc)
    show ?thesis
    proof (cases "reason ! off < CHR ''a'' \<or> reason ! off > CHR ''z''")
      case True
      with off dr show ?thesis by (subst path_segs.simps) simp
    next
      case ch: False
      have sc: "scan reason (off + 1) =
        (case dropWhile is_rest (drop (off + 1) reason) of
           [] \<Rightarrow> Some (length reason)
         | d # ds \<Rightarrow> if d = CHR ''.'' then Some (length reason - length (d # ds)) else None)"
        using off by (intro scan_dropWhile) simp
      let ?cs = "drop (Suc off) reason"
      have len: "length (takeWhile is_rest ?cs) + length (dropWhile is_rest ?cs) = length reason - Suc off"
        by (metis length_append takeWhile_dropWhile_id length_drop)
      show ?thesis
      proof (cases "dropWhile is_rest ?cs")
        case Nil
        then have tw: "takeWhile is_rest ?cs = ?cs"
          by (metis append_Nil2 takeWhile_dropWhile_id)
        have s: "scan reason (Suc off) = Some (length reason)" using sc Nil by simp
        have sk: "skip_dot reason (length reason) = length reason" by (simp add: skip_dot_def)
        have e: "path_segs reason (length reason) = []" by (subst path_segs.simps) simp
        have tk: "take (length reason - off) (drop off reason) = drop off reason" by simp
        have l: "path_segs reason off = [drop off reason]"
          using off ch by (subst path_segs.simps) (simp add: Let_def s sk e tk)
        have r: "segs_of (drop off reason) = [reason ! off # ?cs]"
          using ch by (simp add: dr Nil tw)
        show ?thesis unfolding l r by (simp add: dr)
      next
        case (Cons d ds)
        show ?thesis
        proof (cases "d = CHR ''.''")
          case False
          with sc Cons have "scan reason (Suc off) = None" by simp
          then have l: "path_segs reason off = []"
            using off ch by (subst path_segs.simps) simp
          have r: "segs_of (drop off reason) = []"
            using ch False by (simp add: dr Cons)
          show ?thesis unfolding l r ..
        next
          case True
          define i where "i = length reason - length (d # ds)"
          have s: "scan reason (Suc off) = Some i" using sc Cons True by (simp add: i_def)
          from len Cons have i: "i = Suc off + length (takeWhile is_rest ?cs)" by (simp add: i_def)
          have ilt: "i < length reason" using off Cons i len by simp
          have "drop i reason = dropWhile is_rest ?cs"
            unfolding i by (metis add.commute append_eq_conv_conj drop_drop takeWhile_dropWhile_id)
          then have dri: "drop i reason = d # ds" using Cons by simp
          then have "reason ! i = d" using ilt by (metis Cons_nth_drop_Suc list.inject)
          then have sk: "skip_dot reason i = i + 1" using ilt True by (simp add: skip_dot_def)
          have dds: "drop (i + 1) reason = ds" using dri by (metis Suc_eq_plus1 drop_Suc tl_drop list.sel(3))
          have tk: "take (i - off) (drop off reason) = reason ! off # takeWhile is_rest ?cs"
            unfolding i dr by (simp add: Suc_diff_le) (metis append_eq_conv_conj takeWhile_dropWhile_id)
          have "path_segs reason (skip_dot reason i) = segs_of (drop (skip_dot reason i) reason)"
            using 1[OF off refl ch] s by simp
          then have IH: "path_segs reason (skip_dot reason i) = segs_of ds"
            by (simp only: sk dds)
          have l: "path_segs reason off = (reason ! off # takeWhile is_rest ?cs) # segs_of ds"
            using off ch by (subst path_segs.simps) (simp add: Let_def s IH tk)
          have r: "segs_of (drop off reason) = (reason ! off # takeWhile is_rest ?cs) # segs_of ds"
            using ch True by (simp add: dr Cons)
          show ?thesis unfolding l r ..
        qed
      qed
    qed
  qed
qed

section \<open>The best candidate\<close>

lemma cands_entry:
  "(d, v, pt) \<in> set (cands segs n depth) \<longleftrightarrow>
   (\<exists>pat. entry n pat = Some (v, pt) \<and> pmatch pat segs \<and> d = depth + int (length pat))"
  unfolding cands_iff entry_def
  by (auto split: option.splits if_splits)

lemma MatchWithPattern_best:
  "MatchWithPattern (Some t) reason =
     (let r = best_of (cands (path_segs reason 0) t 0)
      in if fst r < 0 then (0, False, []) else (fst (snd r), True, snd (snd r)))"
  by (simp add: MatchWithPattern_def dfsP_cands best_of_def Let_def split: prod.splits)

lemma best_of_Nil: "best_of [] = (- 1, 0, [])"
  by (simp add: best_of_def)

lemma best_of_first:
  assumes ne: "cs \<noteq> []" and nn: "\<forall>c \<in> set cs. 0 \<le> fst c"
  shows "0 \<le> fst (best_of cs) \<and> (\<forall>c \<in> set cs. fst c \<le> fst (best_of cs))
         \<and> find (\<lambda>c. fst c = fst (best_of cs)) cs = Some (best_of cs)"
proof -
  from ne obtain c where c: "c \<in> set cs" by (cases cs) auto
  have mx: "\<forall>c \<in> set cs. fst c \<le> fst (best_of cs)"
    unfolding best_of_def by (blast intro: foldl_keep_max)
  with c nn have pos: "0 \<le> fst (best_of cs)" by force
  then have "fst (- 1 :: int, 0 :: 'a, [] :: string) < fst (foldl keep (- 1, 0, []) cs)"
    by (simp add: best_of_def)
  then have "find (\<lambda>c. fst c = fst (foldl keep (- 1, 0 :: 'a, []) cs)) cs = Some (foldl keep (- 1, 0, []) cs)"
    by (rule foldl_keep_first)
  with mx pos show ?thesis by (simp add: best_of_def)
qed

lemma best_of_unique:
  assumes "find (\<lambda>c. fst c = fst c0) cs = Some c0" and "\<forall>c \<in> set cs. fst c \<le> fst c0"
    and "\<forall>c \<in> set cs. 0 \<le> fst c"
  shows "best_of cs = c0"
proof -
  from assms(1) have in0: "c0 \<in> set cs" by (auto simp: find_Some_iff)
  then have ne: "cs \<noteq> []" by auto
  from best_of_first[OF ne assms(3)]
  have mx: "\<forall>c \<in> set cs. fst c \<le> fst (best_of cs)"
    and f: "find (\<lambda>c. fst c = fst (best_of cs)) cs = Some (best_of cs)" by simp_all
  from f have "best_of cs \<in> set cs" by (auto simp: find_Some_iff)
  with assms(2) mx in0 have eq: "fst (best_of cs) = fst c0" by force
  from f have "find (\<lambda>c. fst c = fst c0) cs = Some (best_of cs)" by (simp only: eq)
  with assms(1) show ?thesis by (metis option.inject)
qed

lemma cands_nonneg: "c \<in> set (cands segs n depth) \<Longrightarrow> depth \<le> fst c"
  by (cases c) (auto simp: cands_entry)

lemma find_append_first:
  "find P (xs @ ys) = (case find P xs of None \<Rightarrow> find P ys | Some x \<Rightarrow> Some x)"
  by (induction xs) auto

lemma literal_first:
  "lookup n (take k segs) = Some m \<Longrightarrow> hasVal m \<Longrightarrow> k \<le> length segs \<Longrightarrow>
   find (\<lambda>c. fst c = depth + int k) (cands segs n depth) = Some (depth + int k, val m, pattern m)"
proof (induction segs arbitrary: n depth k)
  case Nil
  then show ?case by simp
next
  case (Cons s ss)
  show ?case
  proof (cases k)
    case 0
    with Cons.prems show ?thesis by simp
  next
    case (Suc k')
    with Cons.prems obtain c where c: "map_of (children n) s = Some c"
      "lookup c (take k' ss) = Some m" "k' \<le> length ss"
      by (auto split: option.splits)
    have "find (\<lambda>x. fst x = depth + 1 + int k') (cands ss c (depth + 1))
          = Some (depth + 1 + int k', val m, pattern m)"
      using Cons.IH[OF c(2) Cons.prems(2) c(3)] .
    then show ?thesis
      using c(1) Suc by (simp add: find_append_first add.assoc)
  qed
qed

section \<open>Well-formed and malformed paths\<close>

lemma valid_cases:
  "validSegment s False \<longleftrightarrow>
   (\<exists>c body. s = c # body \<and> \<not> (c < CHR ''a'' \<or> c > CHR ''z'') \<and> list_all is_rest body)"
  by (cases s) (auto simp: validSegment_def)

lemma not_is_rest_dot: "\<not> is_rest (CHR ''.'')"
  by (simp add: is_rest_def)

lemma segs_of_valid_end:
  assumes "validSegment s False"
  shows "segs_of s = [s]"
proof -
  from assms obtain c body where s: "s = c # body" "\<not> (c < CHR ''a'' \<or> c > CHR ''z'')"
    "list_all is_rest body" by (auto simp: valid_cases)
  from s(3) have dw: "dropWhile is_rest body = []" "takeWhile is_rest body = body"
    by (simp_all add: list_all_iff)
  from s(2) show ?thesis by (simp add: s(1) dw)
qed

lemma segs_of_valid_dot:
  assumes "validSegment s False"
  shows "segs_of (s @ CHR ''.'' # r) = s # segs_of r"
proof -
  from assms obtain c body where s: "s = c # body" "\<not> (c < CHR ''a'' \<or> c > CHR ''z'')"
    "list_all is_rest body" by (auto simp: valid_cases)
  from s(3) have "dropWhile is_rest (body @ CHR ''.'' # r) = CHR ''.'' # r"
    "takeWhile is_rest (body @ CHR ''.'' # r) = body"
    by (simp_all add: list_all_iff not_is_rest_dot)
  note dw = this
  from s(2) show ?thesis by (simp add: s(1) dw)
qed

lemma dropWhile_bad:
  "\<not> list_all is_rest (takeWhile (\<lambda>c. c \<noteq> CHR ''.'') cs) \<Longrightarrow>
   \<exists>d ds. dropWhile is_rest cs = d # ds \<and> d \<noteq> CHR ''.''"
  by (induction cs) (auto split: if_splits)

lemma segs_of_bad:
  assumes "\<not> validSegment (takeWhile (\<lambda>c. c \<noteq> CHR ''.'') bad) False"
  shows "segs_of bad = []"
proof (cases bad)
  case Nil
  then show ?thesis by simp
next
  case (Cons c cs)
  show ?thesis
  proof (cases "c < CHR ''a'' \<or> c > CHR ''z''")
    case True
    with Cons show ?thesis by simp
  next
    case False
    then have "c \<noteq> CHR ''.''" by auto
    with assms Cons False have "\<not> list_all is_rest (takeWhile (\<lambda>c. c \<noteq> CHR ''.'') cs)"
      by (simp add: validSegment_def)
    then obtain d ds where "dropWhile is_rest cs = d # ds" "d \<noteq> CHR ''.''"
      using dropWhile_bad by blast
    with Cons False show ?thesis by simp
  qed
qed

lemma Join_Cons: "xs \<noteq> [] \<Longrightarrow> Join (s # xs) = s @ CHR ''.'' # Join xs"
  by (cases xs) simp_all

lemma segs_of_Join:
  "list_all (\<lambda>s. validSegment s False) segs \<Longrightarrow> segs_of (Join segs) = segs"
proof (induction segs rule: Join.induct)
  case 1
  show ?case by simp
next
  case (2 s)
  then show ?case by (simp add: segs_of_valid_end)
next
  case (3 s t ss)
  then show ?case by (simp add: segs_of_valid_dot del: segs_of.simps)
qed

lemma segs_of_Join_bad:
  assumes "list_all (\<lambda>s. validSegment s False) segs"
    and "\<not> validSegment (takeWhile (\<lambda>c. c \<noteq> CHR ''.'') bad) False"
  shows "segs_of (Join (segs @ [bad])) = segs"
  using assms(1)
proof (induction segs)
  case Nil
  show ?case using assms(2) by (simp add: segs_of_bad)
next
  case (Cons s ss)
  have "Join ((s # ss) @ [bad]) = s @ CHR ''.'' # Join (ss @ [bad])"
    by (simp add: Join_Cons)
  with Cons show ?case by (simp add: segs_of_valid_dot del: segs_of.simps)
qed

lemma path_segs_0: "path_segs reason 0 = segs_of reason"
  by (simp add: path_segs_segs_of)

lemma MatchWithPattern_none:
  "cands (path_segs reason 0) t 0 = [] \<Longrightarrow> MatchWithPattern (Some t) reason = (0, False, [])"
  by (simp add: MatchWithPattern_best best_of_Nil)

lemma MatchWithPattern_some:
  assumes "cands (path_segs reason 0) t 0 \<noteq> []"
  shows "\<exists>d v pt. MatchWithPattern (Some t) reason = (v, True, pt)
           \<and> find (\<lambda>c. fst c = d) (cands (path_segs reason 0) t 0) = Some (d, v, pt)
           \<and> (\<forall>c \<in> set (cands (path_segs reason 0) t 0). fst c \<le> d)"
proof -
  let ?cs = "cands (path_segs reason 0) t 0"
  have nn: "\<forall>c \<in> set ?cs. 0 \<le> fst c" by (blast dest: cands_nonneg)
  obtain d v pt where r: "best_of ?cs = (d, v, pt)" by (cases "best_of ?cs") auto
  from best_of_first[OF assms nn] r
  have "0 \<le> d" "\<forall>c \<in> set ?cs. fst c \<le> d" "find (\<lambda>c. fst c = d) ?cs = Some (d, v, pt)"
    by simp_all
  moreover from \<open>0 \<le> d\<close> r have "MatchWithPattern (Some t) reason = (v, True, pt)"
    by (simp add: MatchWithPattern_best)
  ultimately show ?thesis by blast
qed

lemma Match_of_pattern:
  "MatchWithPattern t reason = (v, ok, pt) \<Longrightarrow> Match t reason = (v, ok)"
  by (simp add: Match_MatchWithPattern)


lemma entry_lookup:
  "entry t pat = Some (v, pt) \<longleftrightarrow> (\<exists>m. lookup t pat = Some m \<and> hasVal m \<and> val m = v \<and> pattern m = pt)"
  by (auto simp: entry_def split: option.splits)

lemma pmatch_length: "pmatch pat segs \<Longrightarrow> length pat \<le> length segs"
  by (induction pat segs rule: pmatch.induct) simp_all

lemma Match_first_deepest:
  assumes f: "find (\<lambda>c. fst c = d) (cands (path_segs reason 0) t 0) = Some (d, v, pt)"
    and mx: "\<forall>c \<in> set (cands (path_segs reason 0) t 0). fst c \<le> d"
  shows "MatchWithPattern (Some t) reason = (v, True, pt)"
proof -
  let ?cs = "cands (path_segs reason 0) t 0"
  have nn: "\<forall>c \<in> set ?cs. 0 \<le> fst c" by (blast dest: cands_nonneg)
  have b: "best_of ?cs = (d, v, pt)"
    using f mx nn by (intro best_of_unique) simp_all
  from f have "(d, v, pt) \<in> set ?cs" by (auto simp: find_Some_iff)
  with nn have "0 \<le> d" by force
  with b show ?thesis by (simp add: MatchWithPattern_best)
qed

lemma Match_path_segs_cong:
  "path_segs r1 0 = path_segs r2 0 \<Longrightarrow> MatchWithPattern t r1 = MatchWithPattern t r2"
proof (cases t)
  case None
  then show ?thesis by (simp add: MatchWithPattern_def)
next
  case (Some n)
  assume "path_segs r1 0 = path_segs r2 0"
  with Some show ?thesis by (simp add: MatchWithPattern_best)
qed

section \<open>Insertion\<close>

lemma entry_Nil: "entry n [] = (if hasVal n then Some (val n, pattern n) else None)"
  by (simp add: entry_def)

lemma entry_Cons:
  "entry n (q # qs) = (case map_of (children n) q of None \<Rightarrow> None | Some c \<Rightarrow> entry c qs)"
  by (simp add: entry_def split: option.splits)

lemma entry_New: "entry segmenttrie_New pat = None"
  by (cases pat) (simp_all add: entry_Nil entry_Cons segmenttrie_New_def)

lemma stored_pattern_Nil: "stored_pattern n [] = pattern n"
  by (simp add: stored_pattern_def)

lemma stored_pattern_Cons:
  "stored_pattern n (q # qs) = (case map_of (children n) q of None \<Rightarrow> [] | Some c \<Rightarrow> stored_pattern c qs)"
  by (simp add: stored_pattern_def split: option.splits)

lemma stored_pattern_New: "stored_pattern segmenttrie_New segs = []"
  by (cases segs) (simp_all add: stored_pattern_Nil stored_pattern_Cons segmenttrie_New_def)

lemma entry_insert_walk:
  "entry (insert_walk segs p v n) pat =
     (if pat = segs
      then Some (v, if stored_pattern n segs = [] then p else stored_pattern n segs)
      else entry n pat)"
proof (induction segs arbitrary: n pat)
  case Nil
  show ?case
    by (cases pat) (simp_all add: entry_Nil entry_Cons stored_pattern_Nil)
next
  case (Cons s ss)
  show ?case
  proof (cases pat)
    case Nil
    then show ?thesis by (simp add: entry_Nil Let_def)
  next
    case (Cons q qs)
    show ?thesis
    proof (cases "q = s")
      case False
      with Cons show ?thesis
        by (simp add: entry_Cons Let_def update_conv')
    next
      case True
      show ?thesis
      proof (cases "map_of (children n) s")
        case None
        with Cons True Cons.IH[of segmenttrie_New qs] show ?thesis
          by (simp add: entry_Cons Let_def update_conv' entry_New stored_pattern_New
              stored_pattern_Cons)
      next
        case (Some c)
        with Cons True Cons.IH[of c qs] show ?thesis
          by (simp add: entry_Cons Let_def update_conv' stored_pattern_Cons)
      qed
    qed
  qed
qed

lemma insert_walk_twice:
  "p \<noteq> [] \<Longrightarrow> insert_walk segs p v2 (insert_walk segs p v1 n) = insert_walk segs p v2 n"
  by (induction segs arbitrary: n) (simp_all add: Let_def update_conv')

lemma Insert_Inr:
  "Insert (Some t) p v = Inr t' \<longleftrightarrow>
   (p \<noteq> [] \<and> list_all (\<lambda>seg. validSegment seg True) (Split p)
    \<and> \<not> list_all (\<lambda>s. s = ''*'') (Split p) \<and> t' = insert_walk (Split p) p v t)"
proof -
  have ne: "Split_acc cur s \<noteq> []" for cur s
    by (induction cur s rule: Split_acc.induct) simp_all
  then have "Split p \<noteq> []" by (simp add: Split_def)
  then show ?thesis
    by (auto simp: Insert_def splitAndValidate_def Let_def split: if_splits)
qed

lemma find_unique:
  assumes "x \<in> set xs" and "P x" and "\<And>y. y \<in> set xs \<Longrightarrow> P y \<Longrightarrow> y = x"
  shows "find P xs = Some x"
proof -
  from assms(1,2) obtain y where y: "find P xs = Some y"
    by (cases "find P xs") (auto simp: find_None_iff)
  then have "y \<in> set xs" "P y" by (auto simp: find_Some_iff)
  then have "y = x" by (rule assms(3))
  with y show ?thesis by simp
qed

lemma Match_unique_deepest:
  assumes e: "entry t pat = Some (v, pt)" and p: "pmatch pat (path_segs reason 0)"
    and u: "\<forall>pat'. entry t pat' \<noteq> None \<and> pmatch pat' (path_segs reason 0) \<and> pat' \<noteq> pat
             \<longrightarrow> length pat' < length pat"
  shows "MatchWithPattern (Some t) reason = (v, True, pt)"
proof (rule Match_first_deepest)
  let ?cs = "cands (path_segs reason 0) t 0"
  let ?d = "int (length pat)"
  have "\<exists>pat'. entry t pat' = Some (v, pt) \<and> pmatch pat' (path_segs reason 0)
      \<and> ?d = 0 + int (length pat')"
    using e p by (intro exI[of _ pat]) simp
  then have own: "(?d, v, pt) \<in> set ?cs" by (simp only: cands_entry)
  have other: "fst c \<le> ?d \<and> (fst c = ?d \<longrightarrow> c = (?d, v, pt))" if "c \<in> set ?cs" for c
  proof -
    obtain d w pw where c: "c = (d, w, pw)" by (metis prod_cases3)
    with that have "(d, w, pw) \<in> set ?cs" by simp
    then have "\<exists>pat'. entry t pat' = Some (w, pw) \<and> pmatch pat' (path_segs reason 0)
        \<and> d = 0 + int (length pat')" by (simp only: cands_entry)
    then obtain pat' where p': "entry t pat' = Some (w, pw)" "pmatch pat' (path_segs reason 0)"
      "d = int (length pat')" by auto
    show ?thesis
    proof (cases "pat' = pat")
      case True
      with p'(1) e have "w = v" "pw = pt" by simp_all
      with p'(3) True show ?thesis unfolding c by simp
    next
      case False
      with p'(1,2) u have "length pat' < length pat" by blast
      with p'(3) show ?thesis unfolding c by simp
    qed
  qed
  show "find (\<lambda>c. fst c = ?d) ?cs = Some (?d, v, pt)"
  proof (rule find_unique)
    show "(?d, v, pt) \<in> set ?cs" by (rule own)
    show "fst (?d, v, pt) = ?d" by simp
    fix y assume "y \<in> set ?cs" "fst y = ?d"
    with other[of y] show "y = (?d, v, pt)" by blast
  qed
  show "\<forall>c \<in> set ?cs. fst c \<le> ?d" using other by blast
qed

section \<open>Wildcard edges\<close>

lemma Match_found_entry:
  assumes "Match (Some t) reason = (w, True)"
  shows "\<exists>pat pw. entry t pat = Some (w, pw) \<and> pmatch pat (path_segs reason 0)"
proof -
  let ?cs = "cands (path_segs reason 0) t 0"
  have ne: "?cs \<noteq> []"
  proof
    assume "?cs = []"
    then have "Match (Some t) reason = (0, False)"
      by (rule Match_of_pattern[OF MatchWithPattern_none])
    with assms show False by simp
  qed
  then obtain d v' pt where r: "MatchWithPattern (Some t) reason = (v', True, pt)"
    "find (\<lambda>c. fst c = d) ?cs = Some (d, v', pt)"
    using MatchWithPattern_some by blast
  from r(1) assms have v: "v' = w" by (simp add: Match_MatchWithPattern)
  from r(2) have "(d, w, pt) \<in> set ?cs" unfolding v by (auto simp: find_Some_iff)
  then show ?thesis by (simp only: cands_entry) blast
qed

lemma find_cands_own:
  "hasVal n \<Longrightarrow> find (\<lambda>c. fst c = depth) (cands segs n depth) = Some (depth, val n, pattern n)"
  by (cases segs) simp_all

lemma find_cands_below:
  "d < depth \<Longrightarrow> find (\<lambda>c. fst c = d) (cands segs n depth) = None"
  by (force simp: find_None_iff dest: cands_nonneg)

lemma find_cands_deeper:
  assumes "\<not> hasVal n"
  shows "find (\<lambda>c. fst c = depth) (cands segs n depth) = None"
proof (cases segs)
  case Nil
  with assms show ?thesis by simp
next
  case (Cons s ss)
  with assms show ?thesis
    by (simp add: find_append_first find_cands_below split: option.splits)
qed

lemma entry2:
  assumes "entry t [a, s] = Some (v, pt)"
  obtains ca m where "map_of (children t) a = Some ca" "map_of (children ca) s = Some m"
    "hasVal m" "val m = v" "pattern m = pt"
  using assms by (auto simp: entry_Cons entry_Nil split: option.splits if_splits)

lemma valid_not_star: "validSegment b False \<Longrightarrow> b \<noteq> ''*''"
  by (auto simp: validSegment_def)

lemma find_cands_Cons:
  assumes "depth < d" and "depth' = depth + 1"
  shows "find (\<lambda>c. fst c = d) (cands (s # ss) n depth) =
    (case (case map_of (children n) s of
             Some next \<Rightarrow> find (\<lambda>c. fst c = d) (cands ss next depth')
           | None \<Rightarrow> None) of
       Some x \<Rightarrow> Some x
     | None \<Rightarrow> (case map_of (children n) ''*'' of
                  Some next \<Rightarrow> find (\<lambda>c. fst c = d) (cands ss next depth')
                | None \<Rightarrow> None))"
  using assms by (simp add: find_append_first split: option.splits)

lemma wildcard_first_at_depth2:
  assumes e: "entry t [a, ''*''] = Some (v, pt)" and nb: "entry t [a, b] = None"
  shows "find (\<lambda>c. fst c = 2) (cands (a # b # rest) t 0) = Some (2, v, pt)"
proof -
  from e obtain ca m where c: "map_of (children t) a = Some ca" "map_of (children ca) ''*'' = Some m"
    "hasVal m" "val m = v" "pattern m = pt" by (rule entry2)
  have fm: "find (\<lambda>c. fst c = 2) (cands rest m 2) = Some (2, v, pt)"
    using find_cands_own[OF c(3), of 2 rest] c(4,5) by simp
  have fb: "(case map_of (children ca) b of
               Some next \<Rightarrow> find (\<lambda>c. fst c = 2) (cands rest next 2)
             | None \<Rightarrow> None) = None"
  proof (cases "map_of (children ca) b")
    case None
    then show ?thesis by simp
  next
    case (Some cb)
    with nb c(1) have "\<not> hasVal cb" by (simp add: entry_Cons entry_Nil split: if_splits)
    then show ?thesis using Some by (simp add: find_cands_deeper)
  qed
  have ca: "find (\<lambda>c. fst c = 2) (cands (b # rest) ca 1) = Some (2, v, pt)"
    by (subst find_cands_Cons[where depth' = 2]) (simp_all add: fb fm c(2) del: cands.simps)
  show ?thesis
    by (subst find_cands_Cons[where depth' = 1]) (simp_all add: ca c(1) del: cands.simps)
qed

section \<open>Tries built by New\<close>

lemma Split_acc_ne: "Split_acc cur s \<noteq> []"
  by (induction cur s rule: Split_acc.induct) simp_all

lemma Split_ne: "Split p \<noteq> []"
  by (simp add: Split_def Split_acc_ne)

lemma hasVal_insert_walk: "segs \<noteq> [] \<Longrightarrow> hasVal (insert_walk segs p v t) = hasVal t"
  by (cases segs) (simp_all add: Let_def)

lemma Insert_root: "Insert (Some t) p v = Inr t' \<Longrightarrow> hasVal t' = hasVal t"
  by (simp add: Insert_Inr hasVal_insert_walk Split_ne)

lemma insert_rules_root:
  "insert_rules lib conv fam c rules t = Inr t' \<Longrightarrow> hasVal t' = hasVal t"
proof (induction rules arbitrary: t)
  case Nil
  then show ?case by simp
next
  case (Cons r rules)
  from Cons.prems obtain p t1 where
    "Insert (Some t) p (conv (rule_val r)) = Inr t1" "insert_rules lib conv fam c rules t1 = Inr t'"
    by (auto split: sum.splits)
  then show ?case using Cons.IH Insert_root by metis
qed

lemma build_tries_root:
  "build_tries lib conv fam xs acc = Inr tries \<Longrightarrow> roots_plain acc \<Longrightarrow> roots_plain tries"
proof (induction xs arbitrary: acc)
  case Nil
  then show ?case by simp
next
  case (Cons x xs)
  obtain c rules where x: "x = (c, rules)" by (cases x)
  show ?case
  proof (cases "length rules = 0")
    case True
    with Cons x show ?thesis by simp
  next
    case False
    with Cons.prems(1) x obtain t where t: "insert_rules lib conv fam c rules segmenttrie_New = Inr t"
      "build_tries lib conv fam xs (acc(c \<mapsto> Some t)) = Inr tries"
      by (auto split: sum.splits)
    from t(1) have "\<not> hasVal t"
      using insert_rules_root[of lib conv fam c rules segmenttrie_New t] by (simp add: segmenttrie_New_def)
    with Cons.prems(2) have "roots_plain (acc(c \<mapsto> Some t))"
      by (auto simp: roots_plain_def)
    with Cons.IH t(2) show ?thesis by blast
  qed
qed

lemma Match_empty_reason: "\<not> hasVal t \<Longrightarrow> Match (Some t) [] = (0, False)"
proof -
  assume "\<not> hasVal t"
  moreover have "path_segs [] 0 = []" by (subst path_segs.simps) simp
  ultimately have "cands (path_segs [] 0) t 0 = []" by simp
  then show ?thesis by (rule Match_of_pattern[OF MatchWithPattern_none])
qed

lemma foldl_apply_fallback:
  "b_fallbackHTTP (foldl (\<lambda>b opt. apply_Option opt b) b opts) = b_fallbackHTTP b
   \<and> b_fallbackGRPC (foldl (\<lambda>b opt. apply_Option opt b) b opts) = b_fallbackGRPC b"
proof (induction opts arbitrary: b)
  case Nil
  show ?case by simp
next
  case (Cons opt opts)
  have "b_fallbackHTTP (apply_Option opt b) = b_fallbackHTTP b
      \<and> b_fallbackGRPC (apply_Option opt b) = b_fallbackGRPC b"
    by (cases opt) simp_all
  with Cons.IH[of "apply_Option opt b"] show ?case by simp
qed

lemma configure_fallback:
  "b_fallbackHTTP (configure opts) = 500 \<and> b_fallbackGRPC (configure opts) = 13"
  using foldl_apply_fallback[of "seed newBuilder" opts]
  by (simp add: configure_def seed_def newBuilder_def)

lemma New_Inr:
  assumes "New lib ordH ordG opts = Inr m"
  shows "roots_plain (httpTrie m) \<and> roots_plain (grpcTrie m)
         \<and> fallbackHTTP m = 500 \<and> fallbackGRPC m = 13"
proof -
  let ?b = "configure opts"
  from assms obtain ht gt where
    h: "build_tries lib (\<lambda>v. v) HTTP (ordH (b_httpPrefixes ?b)) Map.empty = Inr ht"
    and g: "build_tries lib Code_of_int GRPC (ordG (b_grpcPrefixes ?b)) Map.empty = Inr gt"
    and m: "httpTrie m = freezeHTTPTrie ht" "grpcTrie m = freezeGRPCTrie gt"
      "fallbackHTTP m = b_fallbackHTTP ?b" "fallbackGRPC m = b_fallbackGRPC ?b"
    by (auto simp: New_def Let_def split: sum.splits)
  have e: "roots_plain (Map.empty :: code \<rightharpoonup> 'x trie option)" for dummy :: 'x
    by (simp add: roots_plain_def)
  from build_tries_root[OF h] have "roots_plain ht" by (simp add: roots_plain_def)
  moreover from build_tries_root[OF g] have "roots_plain gt" by (simp add: roots_plain_def)
  ultimately show ?thesis
    using m configure_fallback[of opts]
    by (simp add: freezeHTTPTrie_def freezeGRPCTrie_def)
qed

lemma trie_tier_empty: "roots_plain tries \<Longrightarrow> trie_tier (tries c) [] = None"
  by (auto simp: trie_tier_def roots_plain_def Match_empty_reason split: option.splits)

section \<open>Validation of prefix rules at build time\<close>

text \<open>On ASCII text \<open>Normalize\<close> does not consult the library record: it trims the six
  white-space bytes, lower-cases \<open>A\<close>..\<open>Z\<close> and replaces \<open>/\<close> and \<open>-\<close>.\<close>

lemma is_ascii_dropWhile: "is_ascii s \<Longrightarrow> is_ascii (dropWhile P s)"
  unfolding is_ascii_def list_all_iff by (blast dest: set_dropWhileD)

lemma is_ascii_rev: "is_ascii (rev s) = is_ascii s"
  by (simp add: is_ascii_def list_all_iff)

lemma is_ascii_TrimSpace: "is_ascii s \<Longrightarrow> is_ascii (TrimSpace lib s)"
  by (simp add: TrimSpace_def is_ascii_dropWhile is_ascii_rev)

lemma Normalize_ascii:
  assumes "is_ascii s"
  shows "Normalize lib s =
           ReplaceAll (ReplaceAll (map lower_char (rev (dropWhile is_space (rev (dropWhile is_space s)))))
                                  (CHR ''/'') (CHR ''.'')) (CHR ''-'') (CHR ''_'')"
proof -
  let ?t = "rev (dropWhile is_space (rev (dropWhile is_space s)))"
  from assms have t: "TrimSpace lib s = ?t" by (simp add: TrimSpace_def)
  from assms have "is_ascii ?t" using is_ascii_TrimSpace[of s lib] by (simp add: t)
  then have "ToLower lib ?t = map lower_char ?t" by (simp add: ToLower_def)
  then show ?thesis by (simp add: Normalize_def t Let_def ReplaceAll_def)
qed

text \<open>On other text the result is the library's. When \<open>lib\<close> trims a leading no-break
  space (the bytes 0xC2 0xA0), as \<open>strings.TrimSpace\<close> does, the prefix
  \<open>storage.pg\<close> behind it is accepted; when \<open>lib\<close> lower-cases the Kelvin sign (the
  bytes 0xE2 0x84 0xAA) to \<open>k\<close>, as \<open>strings.ToLower\<close> does, the normalized text is
  \<open>kafka.pg\<close>.\<close>

lemma Normalize_no_break_space:
  assumes "unicode_TrimSpace lib (CHR 0xC2 # CHR 0xA0 # ''storage.pg'') = ''storage.pg''"
  shows "normalizeAndValidatePrefix lib (CHR 0xC2 # CHR 0xA0 # ''storage.pg'') = Inr ''storage.pg''"
proof -
  have n: "\<not> is_ascii (CHR 0xC2 # CHR 0xA0 # ''storage.pg'')" by code_simp
  have a: "is_ascii ''storage.pg''" by code_simp
  have l: "ReplaceAll (ReplaceAll (map lower_char ''storage.pg'') (CHR ''/'') (CHR ''.'')) (CHR ''-'') (CHR ''_'')
             = ''storage.pg''" by code_simp
  from n assms have "TrimSpace lib (CHR 0xC2 # CHR 0xA0 # ''storage.pg'') = ''storage.pg''"
    by (simp only: TrimSpace_def if_False)
  with a l have 1: "Normalize lib (CHR 0xC2 # CHR 0xA0 # ''storage.pg'') = ''storage.pg''"
    by (simp only: Normalize_def Let_def ToLower_def if_True) simp
  have "check_segs (Split ''storage.pg'') True = Inr False" by code_simp
  with 1 show ?thesis
    by (simp only: normalizeAndValidatePrefix_def Let_def) simp
qed

lemma Normalize_kelvin_sign:
  assumes "unicode_TrimSpace lib (CHR 0xE2 # CHR 0x84 # CHR 0xAA # ''afka.pg'')
             = CHR 0xE2 # CHR 0x84 # CHR 0xAA # ''afka.pg''"
    and "unicode_ToLower lib (CHR 0xE2 # CHR 0x84 # CHR 0xAA # ''afka.pg'') = ''kafka.pg''"
  shows "Normalize lib (CHR 0xE2 # CHR 0x84 # CHR 0xAA # ''afka.pg'') = ''kafka.pg''"
proof -
  have n: "\<not> is_ascii (CHR 0xE2 # CHR 0x84 # CHR 0xAA # ''afka.pg'')" by code_simp
  have l: "ReplaceAll (ReplaceAll ''kafka.pg'' (CHR ''/'') (CHR ''.'')) (CHR ''-'') (CHR ''_'')
             = ''kafka.pg''" by code_simp
  from n assms(1) have t: "TrimSpace lib (CHR 0xE2 # CHR 0x84 # CHR 0xAA # ''afka.pg'')
      = CHR 0xE2 # CHR 0x84 # CHR 0xAA # ''afka.pg''"
    by (simp only: TrimSpace_def if_False)
  from n assms(2) have "ToLower lib (CHR 0xE2 # CHR 0x84 # CHR 0xAA # ''afka.pg'') = ''kafka.pg''"
    by (simp only: ToLower_def if_False)
  with t l show ?thesis by (simp only: Normalize_def Let_def) simp
qed

lemma validPrefixSegment_eq: "validPrefixSegment seg = validSegment seg True"
  by (cases seg) (simp_all add: validPrefixSegment_def validSegment_def)

lemma validPrefixSegment_literal:
  "validPrefixSegment seg \<longleftrightarrow> seg \<noteq> [] \<and> (seg = ''*'' \<or> literal_syntax seg)"
proof (cases seg)
  case Nil
  then show ?thesis by (simp add: validPrefixSegment_def)
next
  case (Cons c cs)
  have "is_rest = (\<lambda>c. (CHR ''a'' \<le> c \<and> c \<le> CHR ''z'') \<or> (CHR ''0'' \<le> c \<and> c \<le> CHR ''9'')
                      \<or> c = CHR ''_'')"
    by (rule ext) (simp add: is_rest_def)
  then show ?thesis
    using Cons by (auto simp: validPrefixSegment_def literal_syntax_def)
qed

lemma check_segs_Inr:
  "check_segs segs w = Inr b \<longleftrightarrow>
   list_all validPrefixSegment segs \<and> b = (w \<and> list_all (\<lambda>s. s = ''*'') segs)"
  by (induction segs arbitrary: w) auto

lemma check_segs_Inl:
  "isl (check_segs segs w) \<longleftrightarrow> \<not> list_all validPrefixSegment segs"
  by (induction segs arbitrary: w) auto

lemma check_segs_Inl_D: "check_segs segs w = Inl e \<Longrightarrow> \<not> list_all validPrefixSegment segs"
  using check_segs_Inl[of segs w] by simp

lemma nAVP_Inr:
  "normalizeAndValidatePrefix lib raw = Inr p \<longleftrightarrow>
   p = Normalize lib raw \<and> p \<noteq> [] \<and> list_all validPrefixSegment (Split p)
   \<and> \<not> list_all (\<lambda>s. s = ''*'') (Split p)"
  by (auto simp: normalizeAndValidatePrefix_def Let_def check_segs_Inr split: sum.splits
      dest: check_segs_Inl_D)

lemma isl_iff_not_Inr: "isl x \<longleftrightarrow> (\<forall>y. x \<noteq> Inr y)"
  by (cases x) auto

lemma nAVP_malformed: "isl (normalizeAndValidatePrefix lib raw) \<longleftrightarrow> malformed (Normalize lib raw)"
proof -
  let ?p = "Normalize lib raw"
  have v: "list_all validPrefixSegment (Split ?p) \<longleftrightarrow>
      \<not> (list_ex (\<lambda>seg. seg = []) (Split ?p)
         \<or> list_ex (\<lambda>seg. seg \<noteq> [] \<and> seg \<noteq> ''*'' \<and> \<not> literal_syntax seg) (Split ?p))"
    unfolding list_all_iff list_ex_iff validPrefixSegment_literal by blast
  show ?thesis
  proof (cases "?p = []")
    case True
    then show ?thesis by (simp add: normalizeAndValidatePrefix_def malformed_def)
  next
    case ne: False
    show ?thesis
    proof (cases "list_all validPrefixSegment (Split ?p)")
      case False
      then have "isl (check_segs (Split ?p) True)" by (simp add: check_segs_Inl)
      then obtain e where "check_segs (Split ?p) True = Inl e"
        by (cases "check_segs (Split ?p) True") auto
      then have l: "isl (normalizeAndValidatePrefix lib raw)"
        using ne by (simp add: normalizeAndValidatePrefix_def)
      from False v have r: "malformed ?p" unfolding malformed_def by blast
      from l r show ?thesis by blast
    next
      case True
      let ?w = "list_all (\<lambda>s. s = ''*'') (Split ?p)"
      from True have c: "check_segs (Split ?p) True = Inr ?w" by (simp add: check_segs_Inr)
      have l: "isl (normalizeAndValidatePrefix lib raw) \<longleftrightarrow> ?w"
        using ne c by (simp add: normalizeAndValidatePrefix_def Let_def)
      from True v ne have r: "malformed ?p \<longleftrightarrow> ?w" unfolding malformed_def by blast
      from l r show ?thesis by blast
    qed
  qed
qed

lemma nAVP_Insert:
  assumes "normalizeAndValidatePrefix lib raw = Inr p"
  shows "\<exists>t'. Insert (Some t) p v = Inr t'"
proof -
  from assms have 1: "p \<noteq> []" "list_all validPrefixSegment (Split p)"
    "\<not> list_all (\<lambda>s. s = ''*'') (Split p)"
    unfolding nAVP_Inr by blast+
  from 1(2) have "list_all (\<lambda>seg. validSegment seg True) (Split p)"
    by (simp add: list_all_iff validPrefixSegment_eq)
  with 1(1,3) show ?thesis by (simp add: Insert_Inr)
qed

lemma insert_rules_Inl:
  "insert_rules lib conv fam c rules t = Inl e \<Longrightarrow>
   \<exists>r \<in> set rules. \<exists>cause. e = InvalidReasonPrefix fam (rule_prefix r) c cause
      \<and> normalizeAndValidatePrefix lib (rule_prefix r) = Inl cause"
proof (induction rules arbitrary: t)
  case Nil
  then show ?case by simp
next
  case (Cons r rules)
  show ?case
  proof (cases "normalizeAndValidatePrefix lib (rule_prefix r)")
    case (Inl cause)
    with Cons.prems show ?thesis by auto
  next
    case (Inr p)
    from nAVP_Insert[OF Inr] obtain t' where t': "Insert (Some t) p (conv (rule_val r)) = Inr t'"
      by blast
    with Cons.prems Inr have "insert_rules lib conv fam c rules t' = Inl e" by simp
    from Cons.IH[OF this] show ?thesis by auto
  qed
qed

lemma insert_rules_isl:
  "isl (insert_rules lib conv fam c rules t) \<longleftrightarrow>
   (\<exists>r \<in> set rules. isl (normalizeAndValidatePrefix lib (rule_prefix r)))"
proof (induction rules arbitrary: t)
  case Nil
  show ?case by simp
next
  case (Cons r rules)
  show ?case
  proof (cases "normalizeAndValidatePrefix lib (rule_prefix r)")
    case (Inl cause)
    then show ?thesis by simp
  next
    case (Inr p)
    from nAVP_Insert[OF Inr] obtain t' where t': "Insert (Some t) p (conv (rule_val r)) = Inr t'"
      by blast
    with Inr Cons.IH[of t'] show ?thesis by simp
  qed
qed

lemma build_tries_Inl:
  "build_tries lib conv fam xs acc = Inl e \<Longrightarrow>
   \<exists>c rules r cause. (c, rules) \<in> set xs \<and> r \<in> set rules
      \<and> e = InvalidReasonPrefix fam (rule_prefix r) c cause
      \<and> normalizeAndValidatePrefix lib (rule_prefix r) = Inl cause"
proof (induction xs arbitrary: acc)
  case Nil
  then show ?case by simp
next
  case (Cons x xs)
  obtain c rules where x: "x = (c, rules)" by (cases x)
  show ?case
  proof (cases "length rules = 0")
    case True
    with Cons.prems x have "build_tries lib conv fam xs acc = Inl e" by simp
    from Cons.IH[OF this] show ?thesis by auto
  next
    case False
    show ?thesis
    proof (cases "insert_rules lib conv fam c rules segmenttrie_New")
      case (Inl e')
      with Cons.prems x False have "e' = e" by simp
      with insert_rules_Inl[OF Inl] x show ?thesis by auto
    next
      case (Inr t)
      with Cons.prems x False have "build_tries lib conv fam xs (acc(c \<mapsto> Some t)) = Inl e" by simp
      from Cons.IH[OF this] show ?thesis by auto
    qed
  qed
qed

lemma build_tries_isl:
  "isl (build_tries lib conv fam xs acc) \<longleftrightarrow>
   (\<exists>c rules r. (c, rules) \<in> set xs \<and> r \<in> set rules
      \<and> isl (normalizeAndValidatePrefix lib (rule_prefix r)))"
proof (induction xs arbitrary: acc)
  case Nil
  show ?case by simp
next
  case (Cons x xs)
  obtain c rules where x: "x = (c, rules)" by (cases x)
  show ?case
  proof (cases "length rules = 0")
    case True
    with x have eq: "build_tries lib conv fam (x # xs) acc = build_tries lib conv fam xs acc" by simp
    have "isl (build_tries lib conv fam (x # xs) acc) \<longleftrightarrow>
        (\<exists>c' rules' r. (c', rules') \<in> set xs \<and> r \<in> set rules'
            \<and> isl (normalizeAndValidatePrefix lib (rule_prefix r)))"
      unfolding eq by (rule Cons.IH)
    also have "\<dots> \<longleftrightarrow> (\<exists>c' rules' r. (c', rules') \<in> set (x # xs) \<and> r \<in> set rules'
            \<and> isl (normalizeAndValidatePrefix lib (rule_prefix r)))"
      using True x by auto
    finally show ?thesis .
  next
    case False
    show ?thesis
    proof (cases "insert_rules lib conv fam c rules segmenttrie_New")
      case (Inl e')
      then have "isl (insert_rules lib conv fam c rules segmenttrie_New)" by simp
      then obtain r where "r \<in> set rules" "isl (normalizeAndValidatePrefix lib (rule_prefix r))"
        unfolding insert_rules_isl by blast
      moreover from Inl x False have "isl (build_tries lib conv fam (x # xs) acc)" by simp
      ultimately show ?thesis using x by auto
    next
      case (Inr t)
      then have "\<not> isl (insert_rules lib conv fam c rules segmenttrie_New)" by simp
      then have n: "\<forall>r \<in> set rules. \<not> isl (normalizeAndValidatePrefix lib (rule_prefix r))"
        unfolding insert_rules_isl by blast
      from Inr x False have eq: "build_tries lib conv fam (x # xs) acc
          = build_tries lib conv fam xs (acc(c \<mapsto> Some t))" by simp
      have "isl (build_tries lib conv fam (x # xs) acc) \<longleftrightarrow>
          (\<exists>c' rules' r. (c', rules') \<in> set xs \<and> r \<in> set rules'
              \<and> isl (normalizeAndValidatePrefix lib (rule_prefix r)))"
        unfolding eq by (rule Cons.IH)
      also have "\<dots> \<longleftrightarrow> (\<exists>c' rules' r. (c', rules') \<in> set (x # xs) \<and> r \<in> set rules'
              \<and> isl (normalizeAndValidatePrefix lib (rule_prefix r)))"
        using n x by auto
      finally show ?thesis .
    qed
  qed
qed

lemma append_rule_Nil: "append_rule c r [] = [(c, [r])]"
  by (simp add: append_rule_def)

lemma append_rule_Cons:
  "append_rule c r ((k, rs) # ps) =
     (if k = c then (c, rs @ [r]) # ps else (k, rs) # append_rule c r ps)"
  by (simp add: append_rule_def)

lemma has_rule_append:
  "has_rule (append_rule c' r' ps) c raw \<longleftrightarrow> has_rule ps c raw \<or> (c = c' \<and> raw = rule_prefix r')"
proof (induction ps)
  case Nil
  show ?case by (auto simp: append_rule_Nil has_rule_def)
next
  case (Cons x ps)
  obtain k rs where x: "x = (k, rs)" by (cases x)
  have split: "has_rule (y # ys) c raw \<longleftrightarrow>
      (fst y = c \<and> (\<exists>r \<in> set (snd y). rule_prefix r = raw)) \<or> has_rule ys c raw" for y ys
    by (cases y) (auto simp: has_rule_def)
  show ?case
    unfolding x append_rule_Cons using Cons.IH by (auto simp: split)
qed

lemma foldl_has_rule:
  "(has_rule (b_httpPrefixes (foldl (\<lambda>b opt. apply_Option opt b) b opts)) c raw \<longleftrightarrow>
      has_rule (b_httpPrefixes b) c raw \<or> (\<exists>v. WithHTTPPrefix c raw v \<in> set opts))
   \<and> (has_rule (b_grpcPrefixes (foldl (\<lambda>b opt. apply_Option opt b) b opts)) c raw \<longleftrightarrow>
      has_rule (b_grpcPrefixes b) c raw \<or> (\<exists>v. WithGRPCPrefix c raw v \<in> set opts))"
proof (induction opts arbitrary: b)
  case Nil
  show ?case by simp
next
  case (Cons opt opts)
  have step: "(has_rule (b_httpPrefixes (apply_Option opt b)) c raw \<longleftrightarrow>
        has_rule (b_httpPrefixes b) c raw \<or> (\<exists>v. opt = WithHTTPPrefix c raw v))
      \<and> (has_rule (b_grpcPrefixes (apply_Option opt b)) c raw \<longleftrightarrow>
        has_rule (b_grpcPrefixes b) c raw \<or> (\<exists>v. opt = WithGRPCPrefix c raw v))"
    by (cases opt) (auto simp: has_rule_append)
  show ?case
    using Cons.IH[of "apply_Option opt b"] step by auto
qed

lemma configure_has_rule:
  "(has_rule (b_httpPrefixes (configure opts)) c raw \<longleftrightarrow> (\<exists>v. WithHTTPPrefix c raw v \<in> set opts))
   \<and> (has_rule (b_grpcPrefixes (configure opts)) c raw \<longleftrightarrow> (\<exists>v. WithGRPCPrefix c raw v \<in> set opts))"
  using foldl_has_rule[of "seed newBuilder" opts c raw]
  by (simp add: configure_def seed_def newBuilder_def has_rule_def)

lemma New_isl:
  assumes oH: "\<forall>xs. set (ordH xs) = set xs" and oG: "\<forall>xs. set (ordG xs) = set xs"
  shows "isl (New lib ordH ordG opts) \<longleftrightarrow>
    (\<exists>c raw v. (WithHTTPPrefix c raw v \<in> set opts \<or> WithGRPCPrefix c raw v \<in> set opts)
        \<and> malformed (Normalize lib raw))"
proof -
  let ?b = "configure opts"
  let ?H = "build_tries lib (\<lambda>v. v) HTTP (ordH (b_httpPrefixes ?b)) Map.empty"
  let ?G = "build_tries lib Code_of_int GRPC (ordG (b_grpcPrefixes ?b)) Map.empty"
  have n: "isl (New lib ordH ordG opts) \<longleftrightarrow> isl ?H \<or> isl ?G"
    by (cases ?H; cases ?G) (simp_all add: New_def Let_def)
  have bad: "(\<exists>c rules r. (c, rules) \<in> set ps \<and> r \<in> set rules
        \<and> isl (normalizeAndValidatePrefix lib (rule_prefix r)))
      \<longleftrightarrow> (\<exists>c raw. has_rule ps c raw \<and> malformed (Normalize lib raw))" for ps
    unfolding has_rule_def nAVP_malformed by blast
  have h: "isl ?H \<longleftrightarrow> (\<exists>c raw v. WithHTTPPrefix c raw v \<in> set opts \<and> malformed (Normalize lib raw))"
    unfolding build_tries_isl oH[rule_format] bad
    using configure_has_rule[of opts] by blast
  have g: "isl ?G \<longleftrightarrow> (\<exists>c raw v. WithGRPCPrefix c raw v \<in> set opts \<and> malformed (Normalize lib raw))"
    unfolding build_tries_isl oG[rule_format] bad
    using configure_has_rule[of opts] by blast
  show ?thesis unfolding n h g by blast
qed

lemma New_Inl:
  assumes oH: "\<forall>xs. set (ordH xs) = set xs" and oG: "\<forall>xs. set (ordG xs) = set xs"
    and e: "New lib ordH ordG opts = Inl e"
  shows "\<exists>fam c raw cause. e = InvalidReasonPrefix fam raw c cause
           \<and> malformed (Normalize lib raw)
           \<and> (\<exists>v. case fam of HTTP \<Rightarrow> WithHTTPPrefix c raw v \<in> set opts
                             | GRPC \<Rightarrow> WithGRPCPrefix c raw v \<in> set opts)"
proof -
  let ?b = "configure opts"
  let ?H = "build_tries lib (\<lambda>v. v) HTTP (ordH (b_httpPrefixes ?b)) Map.empty"
  let ?G = "build_tries lib Code_of_int GRPC (ordG (b_grpcPrefixes ?b)) Map.empty"
  have m: "malformed (Normalize lib raw)" if "normalizeAndValidatePrefix lib raw = Inl cause" for raw cause
    using that nAVP_malformed[of lib raw] by simp
  from e consider (H) "?H = Inl e" | (G) "?G = Inl e"
    by (cases ?H; cases ?G) (simp_all add: New_def Let_def)
  then show ?thesis
  proof cases
    case H
    from build_tries_Inl[OF H] obtain c rules r cause where
      r: "(c, rules) \<in> set (b_httpPrefixes ?b)" "r \<in> set rules"
      "e = InvalidReasonPrefix HTTP (rule_prefix r) c cause"
      "normalizeAndValidatePrefix lib (rule_prefix r) = Inl cause"
      unfolding oH[rule_format] by blast
    from r(1,2) have "has_rule (b_httpPrefixes ?b) c (rule_prefix r)"
      unfolding has_rule_def by blast
    then obtain v where "WithHTTPPrefix c (rule_prefix r) v \<in> set opts"
      using configure_has_rule[of opts c "rule_prefix r"] by blast
    with r(3) m[OF r(4)] show ?thesis by (intro exI[of _ HTTP]) auto
  next
    case G
    from build_tries_Inl[OF G] obtain c rules r cause where
      r: "(c, rules) \<in> set (b_grpcPrefixes ?b)" "r \<in> set rules"
      "e = InvalidReasonPrefix GRPC (rule_prefix r) c cause"
      "normalizeAndValidatePrefix lib (rule_prefix r) = Inl cause"
      unfolding oG[rule_format] by blast
    from r(1,2) have "has_rule (b_grpcPrefixes ?b) c (rule_prefix r)"
      unfolding has_rule_def by blast
    then obtain v where "WithGRPCPrefix c (rule_prefix r) v \<in> set opts"
      using configure_has_rule[of opts c "rule_prefix r"] by blast
    with r(3) m[OF r(4)] show ?thesis by (intro exI[of _ GRPC]) auto
  qed
qed

lemma New_ex: "New stdlib_ex (\<lambda>xs. xs) rev opts_ex = Inr mapper_ex"
proof -
  have "\<not> isl (New stdlib_ex (\<lambda>xs. xs) rev opts_ex)" by code_simp
  then show ?thesis by (simp add: mapper_ex_def)
qed

section \<open>Explanation against resolution\<close>

lemma MatchWithPattern_entry:
  assumes "MatchWithPattern (Some t) reason = (v, True, pat)"
  shows "\<exists>path. entry t path = Some (v, pat) \<and> pmatch path (path_segs reason 0)
           \<and> (\<forall>path'. entry t path' \<noteq> None \<and> pmatch path' (path_segs reason 0)
                  \<longrightarrow> length path' \<le> length path)"
proof -
  let ?segs = "path_segs reason 0"
  let ?cs = "cands ?segs t 0"
  have ne: "?cs \<noteq> []"
  proof
    assume "?cs = []"
    then have "MatchWithPattern (Some t) reason = (0, False, [])" by (rule MatchWithPattern_none)
    with assms show False by simp
  qed
  then obtain d v' pt where r: "MatchWithPattern (Some t) reason = (v', True, pt)"
    "find (\<lambda>c. fst c = d) ?cs = Some (d, v', pt)" "\<forall>c \<in> set ?cs. fst c \<le> d"
    using MatchWithPattern_some by blast
  from r(1) assms have v: "v' = v" "pt = pat" by simp_all
  from r(2) have "(d, v, pat) \<in> set ?cs" unfolding v by (auto simp: find_Some_iff)
  then have "\<exists>path. entry t path = Some (v, pat) \<and> pmatch path ?segs \<and> d = 0 + int (length path)"
    by (simp only: cands_entry)
  then obtain path where path: "entry t path = Some (v, pat)" "pmatch path ?segs" "d = int (length path)"
    by auto
  have "\<forall>path'. entry t path' \<noteq> None \<and> pmatch path' ?segs \<longrightarrow> length path' \<le> length path"
  proof (intro allI impI)
    fix path'
    assume "entry t path' \<noteq> None \<and> pmatch path' ?segs"
    then obtain w pw where "entry t path' = Some (w, pw)" "pmatch path' ?segs" by auto
    then have "\<exists>p. entry t p = Some (w, pw) \<and> pmatch p ?segs \<and> int (length path') = 0 + int (length p)"
      by (intro exI[of _ path']) simp
    then have "(int (length path'), w, pw) \<in> set ?cs" by (simp only: cands_entry)
    with r(3) path(3) show "length path' \<le> length path" by force
  qed
  with path show ?thesis by blast
qed

lemma pattern_tier_trie_tier:
  "pattern_tier found r = None \<longleftrightarrow> trie_tier found r = None"
  "pattern_tier found r = Some (v, pat) \<Longrightarrow> trie_tier found r = Some v"
  by (auto simp: pattern_tier_def trie_tier_def Match_MatchWithPattern
      split: option.splits prod.splits if_splits)

lemma pattern_tier_Some:
  assumes "pattern_tier found r = Some (v, pat)"
  shows "\<exists>idx. found = Some (Some idx) \<and> MatchWithPattern (Some idx) r = (v, True, pat)
           \<and> Match (Some idx) r = (v, True)"
proof -
  from assms obtain idx where i: "found = Some (Some idx)"
    by (auto simp: pattern_tier_def split: option.splits)
  with assms have m: "MatchWithPattern (Some idx) r = (v, True, pat)"
    by (auto simp: pattern_tier_def split: prod.splits if_splits)
  from i m Match_of_pattern[OF m] show ?thesis by blast
qed

lemma stored_pattern_insert_walk:
  "stored_pattern (insert_walk segs p v n) path =
     (if path = segs
      then (if stored_pattern n segs = [] then p else stored_pattern n segs)
      else stored_pattern n path)"
proof (induction segs arbitrary: n path)
  case Nil
  show ?case
    by (cases path) (simp_all add: stored_pattern_Nil stored_pattern_Cons)
next
  case (Cons s ss)
  show ?case
  proof (cases path)
    case Nil
    then show ?thesis by (simp add: stored_pattern_Nil Let_def)
  next
    case (Cons q qs)
    show ?thesis
    proof (cases "q = s")
      case False
      with Cons show ?thesis
        by (simp add: stored_pattern_Cons Let_def update_conv')
    next
      case True
      show ?thesis
      proof (cases "map_of (children n) s")
        case None
        with Cons True Cons.IH[of segmenttrie_New qs] show ?thesis
          by (simp add: stored_pattern_Cons Let_def update_conv' stored_pattern_New)
      next
        case (Some c)
        with Cons True Cons.IH[of c qs] show ?thesis
          by (simp add: stored_pattern_Cons Let_def update_conv')
      qed
    qed
  qed
qed

lemma Join_Split_acc: "Join (Split_acc cur s) = cur @ s"
proof (induction cur s rule: Split_acc.induct)
  case (1 cur)
  show ?case by simp
next
  case (2 cur c cs)
  show ?case
  proof (cases "c = CHR ''.''")
    case True
    with 2 show ?thesis by (simp add: Join_Cons Split_acc_ne)
  next
    case False
    with 2 show ?thesis by simp
  qed
qed

lemma Join_Split: "Join (Split p) = p"
  by (simp add: Split_def Join_Split_acc)

lemma entry_stored: "entry t path = Some (v, pat) \<Longrightarrow> stored_pattern t path = pat"
  by (auto simp: entry_def stored_pattern_def split: option.splits if_splits)

lemma canonical_New: "canonical segmenttrie_New"
  by (simp add: canonical_def entry_New stored_pattern_New)

lemma canonical_Insert:
  assumes c: "canonical t" and i: "Insert (Some t) p v = Inr t'"
  shows "canonical t'"
proof -
  let ?segs = "Split p"
  from i have p: "p \<noteq> []" and t': "t' = insert_walk ?segs p v t" by (simp_all add: Insert_Inr)
  have old: "stored_pattern t ?segs = [] \<or> stored_pattern t ?segs = p"
  proof (cases "entry t ?segs")
    case None
    with c show ?thesis by (simp add: canonical_def)
  next
    case (Some a)
    obtain w pat where a: "a = (w, pat)" by (cases a)
    with Some c have "pat = Join ?segs" unfolding canonical_def by blast
    moreover from Some a have "stored_pattern t ?segs = pat" by (simp add: entry_stored)
    ultimately show ?thesis by (simp add: Join_Split)
  qed
  show ?thesis
    unfolding canonical_def t' entry_insert_walk stored_pattern_insert_walk
    using c old by (auto simp: canonical_def Join_Split)
qed

lemma canonical_insert_rules:
  "insert_rules lib conv fam c rules t = Inr t' \<Longrightarrow> canonical t \<Longrightarrow> canonical t'"
proof (induction rules arbitrary: t)
  case Nil
  then show ?case by simp
next
  case (Cons r rules)
  from Cons.prems(1) obtain p t1 where
    "Insert (Some t) p (conv (rule_val r)) = Inr t1" "insert_rules lib conv fam c rules t1 = Inr t'"
    by (auto split: sum.splits)
  with Cons.IH Cons.prems(2) canonical_Insert show ?case by blast
qed

lemma build_tries_canonical:
  "build_tries lib conv fam xs acc = Inr tries \<Longrightarrow> all_canonical acc \<Longrightarrow> all_canonical tries"
proof (induction xs arbitrary: acc)
  case Nil
  then show ?case by simp
next
  case (Cons x xs)
  obtain c rules where x: "x = (c, rules)" by (cases x)
  show ?case
  proof (cases "length rules = 0")
    case True
    with Cons x show ?thesis by simp
  next
    case False
    with Cons.prems(1) x obtain t where t: "insert_rules lib conv fam c rules segmenttrie_New = Inr t"
      "build_tries lib conv fam xs (acc(c \<mapsto> Some t)) = Inr tries"
      by (auto split: sum.splits)
    from t(1) have "canonical t" using canonical_insert_rules canonical_New by blast
    with Cons.prems(2) have "all_canonical (acc(c \<mapsto> Some t))"
      by (auto simp: all_canonical_def)
    with Cons.IH t(2) show ?thesis by blast
  qed
qed

lemma New_canonical:
  assumes "New lib ordH ordG opts = Inr m"
  shows "all_canonical (httpTrie m) \<and> all_canonical (grpcTrie m)"
proof -
  let ?b = "configure opts"
  from assms obtain ht gt where
    h: "build_tries lib (\<lambda>v. v) HTTP (ordH (b_httpPrefixes ?b)) Map.empty = Inr ht"
    and g: "build_tries lib Code_of_int GRPC (ordG (b_grpcPrefixes ?b)) Map.empty = Inr gt"
    and m: "httpTrie m = freezeHTTPTrie ht" "grpcTrie m = freezeGRPCTrie gt"
    by (auto simp: New_def Let_def split: sum.splits)
  from build_tries_canonical[OF h] have "all_canonical ht" by (simp add: all_canonical_def)
  moreover from build_tries_canonical[OF g] have "all_canonical gt" by (simp add: all_canonical_def)
  ultimately show ?thesis
    using m by (simp add: freezeHTTPTrie_def freezeGRPCTrie_def)
qed

lemma TrimSuffix_newline_snoc: "TrimSuffix_newline (s @ [CHR 0x0A]) = s"
  by (simp add: TrimSuffix_newline_def)

lemma explainHTTP_consistent:
  assumes fb: "fallbackHTTP m = 500" and can: "all_canonical (httpTrie m)"
  shows "\<exists>src line. explainHTTP q m c r = (src, line) \<and> known_source src \<and>
     ((src = ''override'' \<and> httpOverride m c = Some (HTTPStatus m c r)
         \<and> line = ''http: source=override -> '' @ fmt_d (HTTPStatus m c r))
    \<or> (src = ''prefix'' \<and> httpOverride m c = None
         \<and> (\<exists>idx path. httpTrie m c = Some (Some idx)
               \<and> Match (Some idx) r = (HTTPStatus m c r, True)
               \<and> entry idx path = Some (HTTPStatus m c r, Join path)
               \<and> pmatch path (path_segs r 0)
               \<and> (\<forall>path'. entry idx path' \<noteq> None \<and> pmatch path' (path_segs r 0)
                      \<longrightarrow> length path' \<le> length path)
               \<and> line = ''http: source=prefix pattern='' @ q (Join path) @ '' -> ''
                          @ fmt_d (HTTPStatus m c r)))
    \<or> (src = ''default'' \<and> httpOverride m c = None \<and> trie_tier (httpTrie m c) r = None
         \<and> httpDefault m c = Some (HTTPStatus m c r)
         \<and> line = ''http: source=default -> '' @ fmt_d (HTTPStatus m c r))
    \<or> (src = ''fallback'' \<and> httpOverride m c = None \<and> trie_tier (httpTrie m c) r = None
         \<and> httpDefault m c = None \<and> HTTPStatus m c r = 500
         \<and> line = ''http source=fallback -> '' @ fmt_d (HTTPStatus m c r)))"
  (is "\<exists>src line. ?E src line \<and> known_source src
        \<and> (?O src line \<or> ?P src line \<or> ?D src line \<or> ?F src line)")
proof (cases "httpOverride m c")
  case (Some v)
  let ?line = "''http: source=override -> '' @ fmt_d (HTTPStatus m c r)"
  from Some have st: "HTTPStatus m c r = v" by (simp add: HTTPStatus_def)
  have e: "?E ''override'' ?line" using Some st by (simp add: explainHTTP_def)
  have k: "known_source ''override''" by (simp add: known_source_def)
  have o: "?O ''override'' ?line" using Some st by simp
  show ?thesis
    by (rule exI[of _ "''override''"], rule exI[of _ ?line], intro conjI, rule e, rule k,
        rule disjI1, rule o)
next
  case None
  show ?thesis
  proof (cases "pattern_tier (httpTrie m c) r")
    case (Some a)
    obtain v pat where a: "a = (v, pat)" by (cases a)
    from Some a obtain idx where idx: "httpTrie m c = Some (Some idx)"
      "MatchWithPattern (Some idx) r = (v, True, pat)" "Match (Some idx) r = (v, True)"
      using pattern_tier_Some by blast
    from Some a have tt: "trie_tier (httpTrie m c) r = Some v"
      by (simp add: pattern_tier_trie_tier(2))
    with None have st: "HTTPStatus m c r = v" by (simp add: HTTPStatus_def)
    from MatchWithPattern_entry[OF idx(2)] obtain path where
      path: "entry idx path = Some (v, pat)" "pmatch path (path_segs r 0)"
      "\<forall>path'. entry idx path' \<noteq> None \<and> pmatch path' (path_segs r 0)
          \<longrightarrow> length path' \<le> length path" by blast
    from can idx(1) have "canonical idx" by (simp add: all_canonical_def)
    with path(1) have pat: "pat = Join path" unfolding canonical_def by blast
    let ?line = "''http: source=prefix pattern='' @ q (Join path) @ '' -> ''
                   @ fmt_d (HTTPStatus m c r)"
    have e: "?E ''prefix'' ?line"
      using None Some a pat st by (simp add: explainHTTP_def)
    have k: "known_source ''prefix''" by (simp add: known_source_def)
    have p: "?P ''prefix'' ?line"
    proof (intro conjI exI)
      show "httpTrie m c = Some (Some idx)" by (rule idx(1))
      show "Match (Some idx) r = (HTTPStatus m c r, True)" unfolding st by (rule idx(3))
      show "entry idx path = Some (HTTPStatus m c r, Join path)"
        unfolding st using path(1) pat by simp
      show "pmatch path (path_segs r 0)" by (rule path(2))
      show "\<forall>path'. entry idx path' \<noteq> None \<and> pmatch path' (path_segs r 0)
          \<longrightarrow> length path' \<le> length path" by (rule path(3))
    qed (simp_all add: None)
    show ?thesis
      by (rule exI[of _ "''prefix''"], rule exI[of _ ?line], intro conjI, rule e, rule k,
          rule disjI2, rule disjI1, rule p)
  next
    case pn: None
    then have tt: "trie_tier (httpTrie m c) r = None" by (simp add: pattern_tier_trie_tier(1))
    show ?thesis
    proof (cases "httpDefault m c")
      case (Some v)
      let ?line = "''http: source=default -> '' @ fmt_d (HTTPStatus m c r)"
      from None tt Some have st: "HTTPStatus m c r = v" by (simp add: HTTPStatus_def)
      have e: "?E ''default'' ?line" using None pn Some st by (simp add: explainHTTP_def)
      have k: "known_source ''default''" by (simp add: known_source_def)
      have d: "?D ''default'' ?line" using None tt Some st by simp
      show ?thesis
        by (rule exI[of _ "''default''"], rule exI[of _ ?line], intro conjI, rule e, rule k,
            rule disjI2, rule disjI2, rule disjI1, rule d)
    next
      case dn: None
      let ?line = "''http source=fallback -> '' @ fmt_d (HTTPStatus m c r)"
      from None tt dn have st: "HTTPStatus m c r = 500" by (simp add: HTTPStatus_def)
      have e: "?E ''fallback'' ?line" using None pn dn st fb by (simp add: explainHTTP_def)
      have k: "known_source ''fallback''" by (simp add: known_source_def)
      have f: "?F ''fallback'' ?line" using None tt dn st by simp
      show ?thesis
        by (rule exI[of _ "''fallback''"], rule exI[of _ ?line], intro conjI, rule e, rule k,
            rule disjI2, rule disjI2, rule disjI2, rule f)
    qed
  qed
qed

lemma explainGRPC_consistent:
  assumes fb: "fallbackGRPC m = 13" and can: "all_canonical (grpcTrie m)"
  shows "\<exists>src line. explainGRPC q upperName m c r = (src, line) \<and> known_source src \<and>
     ((src = ''override'' \<and> grpcOverride m c = Some (GRPCStatus m c r)
         \<and> line = ''grpc: source=override -> '' @ fmt_code upperName (GRPCStatus m c r))
    \<or> (src = ''prefix'' \<and> grpcOverride m c = None
         \<and> (\<exists>idx path. grpcTrie m c = Some (Some idx)
               \<and> Match (Some idx) r = (GRPCStatus m c r, True)
               \<and> entry idx path = Some (GRPCStatus m c r, Join path)
               \<and> pmatch path (path_segs r 0)
               \<and> (\<forall>path'. entry idx path' \<noteq> None \<and> pmatch path' (path_segs r 0)
                      \<longrightarrow> length path' \<le> length path)
               \<and> line = ''grpc: source=prefix pattern='' @ q (Join path) @ '' -> ''
                          @ fmt_code upperName (GRPCStatus m c r)))
    \<or> (src = ''default'' \<and> grpcOverride m c = None \<and> trie_tier (grpcTrie m c) r = None
         \<and> grpcDefault m c = Some (GRPCStatus m c r)
         \<and> line = ''grpc: source=default -> '' @ fmt_code upperName (GRPCStatus m c r))
    \<or> (src = ''fallback'' \<and> grpcOverride m c = None \<and> trie_tier (grpcTrie m c) r = None
         \<and> grpcDefault m c = None \<and> GRPCStatus m c r = 13
         \<and> line = ''grpc: source=fallback -> '' @ fmt_code upperName (GRPCStatus m c r)))"
  (is "\<exists>src line. ?E src line \<and> known_source src
        \<and> (?O src line \<or> ?P src line \<or> ?D src line \<or> ?F src line)")
proof (cases "grpcOverride m c")
  case (Some v)
  let ?line = "''grpc: source=override -> '' @ fmt_code upperName (GRPCStatus m c r)"
  from Some have st: "GRPCStatus m c r = v" by (simp add: GRPCStatus_def)
  have e: "?E ''override'' ?line" using Some st by (simp add: explainGRPC_def)
  have k: "known_source ''override''" by (simp add: known_source_def)
  have o: "?O ''override'' ?line" using Some st by simp
  show ?thesis
    by (rule exI[of _ "''override''"], rule exI[of _ ?line], intro conjI, rule e, rule k,
        rule disjI1, rule o)
next
  case None
  show ?thesis
  proof (cases "pattern_tier (grpcTrie m c) r")
    case (Some a)
    obtain v pat where a: "a = (v, pat)" by (cases a)
    from Some a obtain idx where idx: "grpcTrie m c = Some (Some idx)"
      "MatchWithPattern (Some idx) r = (v, True, pat)" "Match (Some idx) r = (v, True)"
      using pattern_tier_Some by blast
    from Some a have tt: "trie_tier (grpcTrie m c) r = Some v"
      by (simp add: pattern_tier_trie_tier(2))
    with None have st: "GRPCStatus m c r = v" by (simp add: GRPCStatus_def)
    from MatchWithPattern_entry[OF idx(2)] obtain path where
      path: "entry idx path = Some (v, pat)" "pmatch path (path_segs r 0)"
      "\<forall>path'. entry idx path' \<noteq> None \<and> pmatch path' (path_segs r 0)
          \<longrightarrow> length path' \<le> length path" by blast
    from can idx(1) have "canonical idx" by (simp add: all_canonical_def)
    with path(1) have pat: "pat = Join path" unfolding canonical_def by blast
    let ?line = "''grpc: source=prefix pattern='' @ q (Join path) @ '' -> ''
                   @ fmt_code upperName (GRPCStatus m c r)"
    have e: "?E ''prefix'' ?line"
      using None Some a pat st by (simp add: explainGRPC_def)
    have k: "known_source ''prefix''" by (simp add: known_source_def)
    have p: "?P ''prefix'' ?line"
    proof (intro conjI exI)
      show "grpcTrie m c = Some (Some idx)" by (rule idx(1))
      show "Match (Some idx) r = (GRPCStatus m c r, True)" unfolding st by (rule idx(3))
      show "entry idx path = Some (GRPCStatus m c r, Join path)"
        unfolding st using path(1) pat by simp
      show "pmatch path (path_segs r 0)" by (rule path(2))
      show "\<forall>path'. entry idx path' \<noteq> None \<and> pmatch path' (path_segs r 0)
          \<longrightarrow> length path' \<le> length path" by (rule path(3))
    qed (simp_all add: None)
    show ?thesis
      by (rule exI[of _ "''prefix''"], rule exI[of _ ?line], intro conjI, rule e, rule k,
          rule disjI2, rule disjI1, rule p)
  next
    case pn: None
    then have tt: "trie_tier (grpcTrie m c) r = None" by (simp add: pattern_tier_trie_tier(1))
    show ?thesis
    proof (cases "grpcDefault m c")
      case (Some v)
      let ?line = "''grpc: source=default -> '' @ fmt_code upperName (GRPCStatus m c r)"
      from None tt Some have st: "GRPCStatus m c r = v" by (simp add: GRPCStatus_def)
      have e: "?E ''default'' ?line" using None pn Some st by (simp add: explainGRPC_def)
      have k: "known_source ''default''" by (simp add: known_source_def)
      have d: "?D ''default'' ?line" using None tt Some st by simp
      show ?thesis
        by (rule exI[of _ "''default''"], rule exI[of _ ?line], intro conjI, rule e, rule k,
            rule disjI2, rule disjI2, rule disjI1, rule d)
    next
      case dn: None
      let ?line = "''grpc: source=fallback -> '' @ fmt_code upperName (GRPCStatus m c r)"
      from None tt dn have st: "GRPCStatus m c r = 13" by (simp add: GRPCStatus_def)
      have e: "?E ''fallback'' ?line" using None pn dn st fb by (simp add: explainGRPC_def)
      have k: "known_source ''fallback''" by (simp add: known_source_def)
      have f: "?F ''fallback'' ?line" using None tt dn st by simp
      show ?thesis
        by (rule exI[of _ "''fallback''"], rule exI[of _ ?line], intro conjI, rule e, rule k,
            rule disjI2, rule disjI2, rule disjI2, rule f)
    qed
  qed
qed

section \<open>Resolution precedence\<close>

text \<open>
  Claim C1. \<open>HTTPStatus\<close>, and likewise \<open>GRPCStatus\<close>, resolves by the fixed
  four-tier precedence, for every mapper, code and reason: the per-code override if one
  is registered; otherwise the value \<open>Match\<close> finds in the per-code trie, if there is a
  trie and the match succeeds; otherwise the per-code default if present; otherwise the
  global fallback (500 for HTTP, \<open>Internal\<close> = 13 for gRPC). The four cases are
  exhaustive, so a value is returned for every code, also one without any rule, and
  every reason. For a mapper built by \<open>New\<close> the empty reason never matches in the trie
  tier (no trie root carries a value) and the result is the override, else the default,
  else the fallback.
\<close>

theorem resolution_four_tier_precedence:
  "(\<forall>v. httpOverride m c = Some v \<longrightarrow> HTTPStatus m c r = v)
   \<and> (\<forall>idx v. httpOverride m c = None \<and> httpTrie m c = Some (Some idx)
          \<and> Match (Some idx) r = (v, True) \<longrightarrow> HTTPStatus m c r = v)
   \<and> (\<forall>v. httpOverride m c = None
          \<and> (httpTrie m c = None \<or> httpTrie m c = Some None
              \<or> (\<exists>idx z. httpTrie m c = Some (Some idx) \<and> Match (Some idx) r = (z, False)))
          \<and> httpDefault m c = Some v \<longrightarrow> HTTPStatus m c r = v)
   \<and> (httpOverride m c = None
          \<and> (httpTrie m c = None \<or> httpTrie m c = Some None
              \<or> (\<exists>idx z. httpTrie m c = Some (Some idx) \<and> Match (Some idx) r = (z, False)))
          \<and> httpDefault m c = None \<longrightarrow> HTTPStatus m c r = 500)
   \<and> (\<forall>v. grpcOverride m c = Some v \<longrightarrow> GRPCStatus m c r = v)
   \<and> (\<forall>idx v. grpcOverride m c = None \<and> grpcTrie m c = Some (Some idx)
          \<and> Match (Some idx) r = (v, True) \<longrightarrow> GRPCStatus m c r = v)
   \<and> (\<forall>v. grpcOverride m c = None
          \<and> (grpcTrie m c = None \<or> grpcTrie m c = Some None
              \<or> (\<exists>idx z. grpcTrie m c = Some (Some idx) \<and> Match (Some idx) r = (z, False)))
          \<and> grpcDefault m c = Some v \<longrightarrow> GRPCStatus m c r = v)
   \<and> (grpcOverride m c = None
          \<and> (grpcTrie m c = None \<or> grpcTrie m c = Some None
              \<or> (\<exists>idx z. grpcTrie m c = Some (Some idx) \<and> Match (Some idx) r = (z, False)))
          \<and> grpcDefault m c = None \<longrightarrow> GRPCStatus m c r = 13)
   \<and> (New lib ordH ordG opts = Inr m \<longrightarrow>
          HTTPStatus m c [] = (case httpOverride m c of Some v \<Rightarrow> v
                               | None \<Rightarrow> (case httpDefault m c of Some v \<Rightarrow> v | None \<Rightarrow> 500))
          \<and> GRPCStatus m c [] = (case grpcOverride m c of Some v \<Rightarrow> v
                               | None \<Rightarrow> (case grpcDefault m c of Some v \<Rightarrow> v | None \<Rightarrow> 13)))"
proof -
  have H1: "\<forall>v. httpOverride m c = Some v \<longrightarrow> HTTPStatus m c r = v"
    by (simp add: HTTPStatus_def)
  have H2: "\<forall>idx v. httpOverride m c = None \<and> httpTrie m c = Some (Some idx)
          \<and> Match (Some idx) r = (v, True) \<longrightarrow> HTTPStatus m c r = v"
    by (simp add: HTTPStatus_def trie_tier_def)
  have Hn: "trie_tier (httpTrie m c) r = None"
    if "httpTrie m c = None \<or> httpTrie m c = Some None
              \<or> (\<exists>idx z. httpTrie m c = Some (Some idx) \<and> Match (Some idx) r = (z, False))"
    using that by (auto simp: trie_tier_def)
  have H3: "\<forall>v. httpOverride m c = None
          \<and> (httpTrie m c = None \<or> httpTrie m c = Some None
              \<or> (\<exists>idx z. httpTrie m c = Some (Some idx) \<and> Match (Some idx) r = (z, False)))
          \<and> httpDefault m c = Some v \<longrightarrow> HTTPStatus m c r = v"
    using Hn by (simp add: HTTPStatus_def)
  have H4: "httpOverride m c = None
          \<and> (httpTrie m c = None \<or> httpTrie m c = Some None
              \<or> (\<exists>idx z. httpTrie m c = Some (Some idx) \<and> Match (Some idx) r = (z, False)))
          \<and> httpDefault m c = None \<longrightarrow> HTTPStatus m c r = 500"
    using Hn by (simp add: HTTPStatus_def)
  have G1: "\<forall>v. grpcOverride m c = Some v \<longrightarrow> GRPCStatus m c r = v"
    by (simp add: GRPCStatus_def)
  have G2: "\<forall>idx v. grpcOverride m c = None \<and> grpcTrie m c = Some (Some idx)
          \<and> Match (Some idx) r = (v, True) \<longrightarrow> GRPCStatus m c r = v"
    by (simp add: GRPCStatus_def trie_tier_def)
  have Gn: "trie_tier (grpcTrie m c) r = None"
    if "grpcTrie m c = None \<or> grpcTrie m c = Some None
              \<or> (\<exists>idx z. grpcTrie m c = Some (Some idx) \<and> Match (Some idx) r = (z, False))"
    using that by (auto simp: trie_tier_def)
  have G3: "\<forall>v. grpcOverride m c = None
          \<and> (grpcTrie m c = None \<or> grpcTrie m c = Some None
              \<or> (\<exists>idx z. grpcTrie m c = Some (Some idx) \<and> Match (Some idx) r = (z, False)))
          \<and> grpcDefault m c = Some v \<longrightarrow> GRPCStatus m c r = v"
    using Gn by (simp add: GRPCStatus_def)
  have G4: "grpcOverride m c = None
          \<and> (grpcTrie m c = None \<or> grpcTrie m c = Some None
              \<or> (\<exists>idx z. grpcTrie m c = Some (Some idx) \<and> Match (Some idx) r = (z, False)))
          \<and> grpcDefault m c = None \<longrightarrow> GRPCStatus m c r = 13"
    using Gn by (simp add: GRPCStatus_def)
  have E: "New lib ordH ordG opts = Inr m \<longrightarrow>
          HTTPStatus m c [] = (case httpOverride m c of Some v \<Rightarrow> v
                               | None \<Rightarrow> (case httpDefault m c of Some v \<Rightarrow> v | None \<Rightarrow> 500))
          \<and> GRPCStatus m c [] = (case grpcOverride m c of Some v \<Rightarrow> v
                               | None \<Rightarrow> (case grpcDefault m c of Some v \<Rightarrow> v | None \<Rightarrow> 13))"
  proof
    assume "New lib ordH ordG opts = Inr m"
    then have "roots_plain (httpTrie m)" "roots_plain (grpcTrie m)"
      using New_Inr by blast+
    then show "HTTPStatus m c [] = (case httpOverride m c of Some v \<Rightarrow> v
                               | None \<Rightarrow> (case httpDefault m c of Some v \<Rightarrow> v | None \<Rightarrow> 500))
          \<and> GRPCStatus m c [] = (case grpcOverride m c of Some v \<Rightarrow> v
                               | None \<Rightarrow> (case grpcDefault m c of Some v \<Rightarrow> v | None \<Rightarrow> 13))"
      by (simp add: HTTPStatus_def GRPCStatus_def trie_tier_empty split: option.splits)
  qed
  from H1 H2 H3 H4 G1 G2 G3 G4 E show ?thesis by (intro conjI)
qed

theorem resolution_four_tier_precedence_witness:
  "New stdlib_ex (\<lambda>xs. xs) rev opts_ex = Inr mapper_ex
   \<and> HTTPStatus mapper_ex ''canceled'' ''storage.pg.connect'' = 408
   \<and> HTTPStatus mapper_ex ''unavailable'' ''storage.pg.connect'' = 599
   \<and> HTTPStatus mapper_ex ''unavailable'' ''auth.jwt'' = 503
   \<and> HTTPStatus mapper_ex ''unavailable'' [] = 503
   \<and> HTTPStatus mapper_ex ''no_rules'' ''storage.pg'' = 500
   \<and> GRPCStatus mapper_ex ''unavailable'' ''storage.pg.connect'' = 14
   \<and> GRPCStatus mapper_ex ''no_rules'' [] = 13"
proof -
  note T = resolution_four_tier_precedence
  have o: "httpOverride mapper_ex ''canceled'' = Some 408" by code_simp
  have p: "httpOverride mapper_ex ''unavailable'' = None"
    "httpTrie mapper_ex ''unavailable'' = Some (Some trie_pg2)"
    "Match (Some trie_pg2) ''storage.pg.connect'' = (599, True)"
    "Match (Some trie_pg2) ''auth.jwt'' = (0, False)"
    "httpDefault mapper_ex ''unavailable'' = Some 503"
    by code_simp+
  have f: "httpOverride mapper_ex ''no_rules'' = None" "httpTrie mapper_ex ''no_rules'' = None"
    "httpDefault mapper_ex ''no_rules'' = None"
    "grpcOverride mapper_ex ''no_rules'' = None" "grpcDefault mapper_ex ''no_rules'' = None"
    by code_simp+
  have g: "grpcOverride mapper_ex ''unavailable'' = None"
    "grpcTrie mapper_ex ''unavailable'' = Some (Some (Trie [(''storage'', Trie [(''pg'', Trie [] True 14 ''storage.pg'')] False 0 [])] False 0 []))"
    "Match (Some (Trie [(''storage'', Trie [(''pg'', Trie [] True 14 ''storage.pg'')] False 0 [])] False 0 [])) ''storage.pg.connect'' = (14 :: grpc_code, True)"
    by code_simp+
  have 1: "HTTPStatus mapper_ex ''canceled'' ''storage.pg.connect'' = 408"
    using T[of mapper_ex "''canceled''" "''storage.pg.connect''", THEN conjunct1] o by simp
  have 2: "HTTPStatus mapper_ex ''unavailable'' ''storage.pg.connect'' = 599"
    using T[of mapper_ex "''unavailable''" "''storage.pg.connect''", THEN conjunct2, THEN conjunct1]
      p(1,2,3) by simp
  have 3: "HTTPStatus mapper_ex ''unavailable'' ''auth.jwt'' = 503"
    using T[of mapper_ex "''unavailable''" "''auth.jwt''", THEN conjunct2, THEN conjunct2,
        THEN conjunct1] p(1,2,4,5) by simp
  have 4: "HTTPStatus mapper_ex ''unavailable'' [] = 503"
    using T[of mapper_ex "''unavailable''" "[]" stdlib_ex "\<lambda>xs. xs" rev opts_ex, THEN conjunct2, THEN conjunct2,
        THEN conjunct2, THEN conjunct2, THEN conjunct2, THEN conjunct2, THEN conjunct2,
        THEN conjunct2] New_ex p(1,5) by simp
  have 5: "HTTPStatus mapper_ex ''no_rules'' ''storage.pg'' = 500"
    using T[of mapper_ex "''no_rules''" "''storage.pg''", THEN conjunct2, THEN conjunct2,
        THEN conjunct2, THEN conjunct1] f(1,2,3) by simp
  have 6: "GRPCStatus mapper_ex ''unavailable'' ''storage.pg.connect'' = 14"
    using T[of mapper_ex "''unavailable''" "''storage.pg.connect''", THEN conjunct2, THEN conjunct2,
        THEN conjunct2, THEN conjunct2, THEN conjunct2, THEN conjunct1] g by simp
  have 7: "GRPCStatus mapper_ex ''no_rules'' [] = 13"
    using T[of mapper_ex "''no_rules''" "[]" stdlib_ex "\<lambda>xs. xs" rev opts_ex, THEN conjunct2, THEN conjunct2,
        THEN conjunct2, THEN conjunct2, THEN conjunct2, THEN conjunct2, THEN conjunct2,
        THEN conjunct2] New_ex f(4,5) by simp
  from New_ex 1 2 3 4 5 6 7 show ?thesis by (intro conjI)
qed

section \<open>The wildcard consumes one segment\<close>

text \<open>
  Claim C2, as amended. The wildcard consumes exactly one segment. For every trie in
  which \<open>a.*\<close> is registered with value \<open>v\<close>, and valid segments \<open>a\<close>, \<open>b\<close>,
  \<open>c\<close>: the pattern \<open>a.*\<close> is not satisfied by the one-segment path \<open>a\<close>, on which
  \<open>Match\<close> can only return the value of a registered pattern of at most one segment;
  \<open>Match("a.b")\<close> returns \<open>v\<close> provided the literal pattern \<open>a.b\<close> is not registered
  as well; and \<open>Match("a.b.c")\<close> returns \<open>v\<close>, matching only up to the \<open>a.*\<close> node,
  provided \<open>a.b\<close> is not registered and no registered three-segment pattern matches
  \<open>a.b.c\<close>.
\<close>

theorem wildcard_consumes_exactly_one_segment:
  assumes va: "validSegment a False" and vb: "validSegment b False" and vc: "validSegment c False"
    and e: "entry t [a, ''*''] = Some (v, pt)"
  shows "\<not> pmatch [a, ''*''] (path_segs (Join [a]) 0)
     \<and> (\<forall>w. Match (Some t) (Join [a]) = (w, True) \<longrightarrow>
           (\<exists>pat pw. length pat \<le> 1 \<and> entry t pat = Some (w, pw)))
     \<and> (entry t [a, b] = None \<longrightarrow>
           Match (Some t) (Join [a, b]) = (v, True)
           \<and> MatchWithPattern (Some t) (Join [a, b]) = (v, True, pt))
     \<and> (entry t [a, b] = None
         \<and> (\<forall>pat. length pat = 3 \<and> pmatch pat [a, b, c] \<longrightarrow> entry t pat = None) \<longrightarrow>
           Match (Some t) (Join [a, b, c]) = (v, True)
           \<and> MatchWithPattern (Some t) (Join [a, b, c]) = (v, True, pt))"
proof -
  have s1: "path_segs (Join [a]) 0 = [a]"
    using va by (simp only: path_segs_0) (rule segs_of_Join, simp)
  have s2: "path_segs (Join [a, b]) 0 = [a, b]"
    using va vb by (simp only: path_segs_0) (rule segs_of_Join, simp)
  have s3: "path_segs (Join [a, b, c]) 0 = [a, b, c]"
    using va vb vc by (simp only: path_segs_0) (rule segs_of_Join, simp)
  have A: "\<not> pmatch [a, ''*''] (path_segs (Join [a]) 0)"
    unfolding s1 by simp
  have B: "\<exists>pat pw. length pat \<le> 1 \<and> entry t pat = Some (w, pw)"
    if "Match (Some t) (Join [a]) = (w, True)" for w
  proof -
    from Match_found_entry[OF that] obtain pat pw where
      "entry t pat = Some (w, pw)" "pmatch pat [a]" unfolding s1 by blast
    moreover from this(2) have "length pat \<le> 1" by (auto dest: pmatch_length)
    ultimately show ?thesis by blast
  qed
  have C: "Match (Some t) (Join [a, b]) = (v, True)
           \<and> MatchWithPattern (Some t) (Join [a, b]) = (v, True, pt)"
    if nb: "entry t [a, b] = None"
  proof -
    have f: "find (\<lambda>c. fst c = 2) (cands (path_segs (Join [a, b]) 0) t 0) = Some (2, v, pt)"
      unfolding s2 using e nb by (rule wildcard_first_at_depth2)
    have mx: "\<forall>c \<in> set (cands (path_segs (Join [a, b]) 0) t 0). fst c \<le> 2"
    proof
      fix x assume "x \<in> set (cands (path_segs (Join [a, b]) 0) t 0)"
      then obtain d w pw where x: "x = (d, w, pw)" "(d, w, pw) \<in> set (cands [a, b] t 0)"
        unfolding s2 by (metis prod_cases3)
      from x(2) have "\<exists>pat. entry t pat = Some (w, pw) \<and> pmatch pat [a, b] \<and> d = 0 + int (length pat)"
        by (simp only: cands_entry)
      then show "fst x \<le> 2" unfolding x(1) by (auto dest: pmatch_length)
    qed
    have p: "MatchWithPattern (Some t) (Join [a, b]) = (v, True, pt)"
      using f mx by (rule Match_first_deepest)
    with Match_of_pattern[OF p] show ?thesis by blast
  qed
  have D: "Match (Some t) (Join [a, b, c]) = (v, True)
           \<and> MatchWithPattern (Some t) (Join [a, b, c]) = (v, True, pt)"
    if h: "entry t [a, b] = None
         \<and> (\<forall>pat. length pat = 3 \<and> pmatch pat [a, b, c] \<longrightarrow> entry t pat = None)"
  proof -
    from h have nb: "entry t [a, b] = None" by simp
    have f: "find (\<lambda>c. fst c = 2) (cands (path_segs (Join [a, b, c]) 0) t 0) = Some (2, v, pt)"
      unfolding s3 using e nb by (rule wildcard_first_at_depth2)
    have mx: "\<forall>c \<in> set (cands (path_segs (Join [a, b, c]) 0) t 0). fst c \<le> 2"
    proof
      fix x assume "x \<in> set (cands (path_segs (Join [a, b, c]) 0) t 0)"
      then obtain d w pw where x: "x = (d, w, pw)" "(d, w, pw) \<in> set (cands [a, b, c] t 0)"
        unfolding s3 by (metis prod_cases3)
      from x(2) have "\<exists>pat. entry t pat = Some (w, pw) \<and> pmatch pat [a, b, c] \<and> d = 0 + int (length pat)"
        by (simp only: cands_entry)
      then obtain pat where pat: "entry t pat = Some (w, pw)" "pmatch pat [a, b, c]"
        "d = int (length pat)" by auto
      from pat(2) have "length pat \<le> 3" by (auto dest: pmatch_length)
      moreover have "length pat \<noteq> 3" using h pat(1,2) by auto
      ultimately show "fst x \<le> 2" unfolding x(1) using pat(3) by simp
    qed
    have p: "MatchWithPattern (Some t) (Join [a, b, c]) = (v, True, pt)"
      using f mx by (rule Match_first_deepest)
    with Match_of_pattern[OF p] show ?thesis by blast
  qed
  from A B C D show ?thesis by blast
qed

theorem wildcard_consumes_exactly_one_segment_witness:
  "validSegment ''a'' False \<and> validSegment ''b'' False \<and> validSegment ''c'' False
   \<and> Insert (Some segmenttrie_New) ''a.*'' 1 = Inr trie_star
   \<and> entry trie_star [''a'', ''*''] = Some (1, ''a.*'')
   \<and> entry trie_star [''a'', ''b''] = None
   \<and> Match (Some trie_star) ''a'' = (0, False)
   \<and> Match (Some trie_star) ''a.b'' = (1, True)
   \<and> Match (Some trie_star) ''a.b.c'' = (1, True)"
proof -
  have v: "validSegment ''a'' False" "validSegment ''b'' False" "validSegment ''c'' False"
    by code_simp+
  have i: "Insert (Some segmenttrie_New) ''a.*'' 1 = Inr trie_star" by code_simp
  have e: "entry trie_star [''a'', ''*''] = Some (1, ''a.*'')" by code_simp
  have nb: "entry trie_star [''a'', ''b''] = None" by code_simp
  have m: "Match (Some trie_star) ''a'' = (0, False)" by code_simp
  have n3: "\<forall>pat. length pat = 3 \<and> pmatch pat [''a'', ''b'', ''c''] \<longrightarrow> entry trie_star pat = None"
  proof (intro allI impI)
    fix pat assume "length pat = 3 \<and> pmatch pat [''a'', ''b'', ''c'']"
    then obtain x y z where "pat = [x, y, z]" "x = ''a'' \<or> x = ''*''"
      by (cases pat; cases "tl pat"; cases "tl (tl pat)") auto
    then show "entry trie_star pat = None"
      by (auto simp: entry_Cons entry_Nil trie_star_def split: option.splits)
  qed
  have j: "Join [''a'', ''b''] = ''a.b''" "Join [''a'', ''b'', ''c''] = ''a.b.c''" by simp_all
  from wildcard_consumes_exactly_one_segment[OF v e] nb n3
  have "Match (Some trie_star) ''a.b'' = (1, True)" "Match (Some trie_star) ''a.b.c'' = (1, True)"
    unfolding j by blast+
  with v i e nb m show ?thesis by blast
qed

text \<open>
  Claim C2 as stated (for every trie containing \<open>a.*\<close> with value \<open>v\<close>,
  \<open>Match("a.b")\<close> returns \<open>v\<close>) fails: in the trie built from \<open>a.*\<close> mapped to 1
  and \<open>a.b\<close> mapped to 2, \<open>Match("a.b")\<close> returns 2, the value of the literal pattern
  of the same depth.
\<close>

theorem wildcard_returns_v_counterexample:
  "insert_all segmenttrie_New [(''a.*'', 1), (''a.b'', 2)] = Inr trie_wild
   \<and> entry trie_wild [''a'', ''*''] = Some (1, ''a.*'')
   \<and> validSegment ''b'' False
   \<and> Match (Some trie_wild) ''a.b'' = (2, True)
   \<and> Match (Some trie_wild) ''a.b'' \<noteq> (1, True)"
  by code_simp

section \<open>Specificity is depth\<close>



section \<open>Literal against wildcard at equal depth\<close>

text \<open>
  Claim C4. When a literal pattern and a wildcard pattern both match the path at the
  same, maximal depth, \<open>Match\<close> returns the literal pattern's value: if the first \<open>k\<close>
  segments of the path are themselves a registered pattern and no registered matching
  pattern is longer than \<open>k\<close>, the result is that node's value and pattern, whatever
  wildcard patterns of length \<open>k\<close> match too. With \<open>auth.*.verify\<close> mapped to 1 and
  \<open>auth.jwt.verify\<close> mapped to 2, \<open>Match("auth.jwt.verify")\<close> yields 2 and
  \<open>Match("auth.saml.verify.token")\<close> yields 1.
\<close>

theorem literal_beats_wildcard_at_equal_depth:
  "(k \<le> length (path_segs reason 0)
      \<and> entry t (take k (path_segs reason 0)) = Some (v, pt)
      \<and> (\<forall>pat. entry t pat \<noteq> None \<and> pmatch pat (path_segs reason 0) \<longrightarrow> length pat \<le> k)
    \<longrightarrow> Match (Some t) reason = (v, True) \<and> MatchWithPattern (Some t) reason = (v, True, pt))
   \<and> insert_all segmenttrie_New [(''auth.*.verify'', 1), (''auth.jwt.verify'', 2)] = Inr trie_auth
   \<and> Match (Some trie_auth) ''auth.jwt.verify'' = (2, True)
   \<and> Match (Some trie_auth) ''auth.saml.verify.token'' = (1, True)"
proof (intro conjI impI)
  let ?segs = "path_segs reason 0"
  let ?cs = "cands ?segs t 0"
  assume a: "k \<le> length ?segs \<and> entry t (take k ?segs) = Some (v, pt)
      \<and> (\<forall>pat. entry t pat \<noteq> None \<and> pmatch pat ?segs \<longrightarrow> length pat \<le> k)"
  then obtain m where m: "lookup t (take k ?segs) = Some m" "hasVal m" "val m = v" "pattern m = pt"
    by (auto simp: entry_lookup)
  from a have k: "k \<le> length ?segs" by simp
  have f: "find (\<lambda>c. fst c = int k) ?cs = Some (int k, v, pt)"
    using literal_first[OF m(1,2) k, of 0] m(3,4) by simp
  have mx: "\<forall>c \<in> set ?cs. fst c \<le> int k"
  proof
    fix c assume "c \<in> set ?cs"
    then obtain d w pw where c: "c = (d, w, pw)" "(d, w, pw) \<in> set ?cs" by (metis prod_cases3)
    then obtain pat where "entry t pat = Some (w, pw)" "pmatch pat ?segs" "d = int (length pat)"
      unfolding cands_entry by auto
    with a c(1) show "fst c \<le> int k" by auto
  qed
  show p: "MatchWithPattern (Some t) reason = (v, True, pt)"
    using f mx by (rule Match_first_deepest)
  show "Match (Some t) reason = (v, True)"
    using p by (rule Match_of_pattern)
next
  show "insert_all segmenttrie_New [(''auth.*.verify'', 1), (''auth.jwt.verify'', 2)] = Inr trie_auth"
    by code_simp
next
  show "Match (Some trie_auth) ''auth.jwt.verify'' = (2, True)"
    by code_simp
next
  show "Match (Some trie_auth) ''auth.saml.verify.token'' = (1, True)"
    by code_simp
qed

theorem literal_beats_wildcard_at_equal_depth_witness:
  "entry trie_auth (take 3 (path_segs ''auth.jwt.verify'' 0)) = Some (2, ''auth.jwt.verify'')
   \<and> entry trie_auth [''auth'', ''*'', ''verify''] = Some (1, ''auth.*.verify'')
   \<and> pmatch [''auth'', ''*'', ''verify''] (path_segs ''auth.jwt.verify'' 0)
   \<and> MatchWithPattern (Some trie_auth) ''auth.jwt.verify'' = (2, True, ''auth.jwt.verify'')"
proof -
  have s: "path_segs ''auth.jwt.verify'' 0 = [''auth'', ''jwt'', ''verify'']" by code_simp
  have e: "entry trie_auth (take 3 (path_segs ''auth.jwt.verify'' 0)) = Some (2, ''auth.jwt.verify'')"
    by code_simp
  have w: "entry trie_auth [''auth'', ''*'', ''verify''] = Some (1, ''auth.*.verify'')"
    by code_simp
  have p: "pmatch [''auth'', ''*'', ''verify''] (path_segs ''auth.jwt.verify'' 0)"
    by code_simp
  have mx: "\<forall>pat. entry trie_auth pat \<noteq> None \<and> pmatch pat (path_segs ''auth.jwt.verify'' 0)
      \<longrightarrow> length pat \<le> 3"
  proof (intro allI impI)
    fix pat
    assume "entry trie_auth pat \<noteq> None \<and> pmatch pat (path_segs ''auth.jwt.verify'' 0)"
    then have "pmatch pat [''auth'', ''jwt'', ''verify'']" by (simp add: s)
    then show "length pat \<le> 3" by (auto dest: pmatch_length)
  qed
  have k: "3 \<le> length (path_segs ''auth.jwt.verify'' 0)" by (simp add: s)
  from literal_beats_wildcard_at_equal_depth[of 3 "''auth.jwt.verify''" trie_auth 2 "''auth.jwt.verify''"]
    k e mx
  have "MatchWithPattern (Some trie_auth) ''auth.jwt.verify'' = (2, True, ''auth.jwt.verify'')"
    by blast
  with e w p show ?thesis by blast
qed

section \<open>Candidates of equal depth\<close>

text \<open>
  Claim C5, as amended. \<open>cands\<close> lists, in the order of the traversal, the depth, value
  and pattern of every value-carrying node that \<open>dfs\<close> visits; \<open>dfs\<close> folds the update
  \<open>if n.hasVal && depth > bestDepth\<close> over that list. The comparison is strict, so among
  several candidates of the maximal depth \<open>Match\<close> and \<open>MatchWithPattern\<close> return the
  first one found (the literal branch is explored before the wildcard branch); a later
  candidate of equal depth never replaces it. Without any candidate the result is the
  zero value and \<open>found = false\<close>.
\<close>

theorem Match_keeps_first_deepest_candidate:
  "dfsP reason t 0 0 best = foldl keep best (cands (path_segs reason 0) t 0)
   \<and> (cands (path_segs reason 0) t 0 = [] \<longrightarrow>
        MatchWithPattern (Some t) reason = (0, False, []) \<and> Match (Some t) reason = (0, False))
   \<and> (cands (path_segs reason 0) t 0 \<noteq> [] \<longrightarrow>
        (\<exists>d v pt. find (\<lambda>c. fst c = d) (cands (path_segs reason 0) t 0) = Some (d, v, pt)
           \<and> (\<forall>c \<in> set (cands (path_segs reason 0) t 0). fst c \<le> d)
           \<and> MatchWithPattern (Some t) reason = (v, True, pt)
           \<and> Match (Some t) reason = (v, True)))"
proof (intro conjI impI)
  show "dfsP reason t 0 0 best = foldl keep best (cands (path_segs reason 0) t 0)"
    by (rule dfsP_cands)
next
  assume e: "cands (path_segs reason 0) t 0 = []"
  then show p: "MatchWithPattern (Some t) reason = (0, False, [])"
    by (rule MatchWithPattern_none)
  show "Match (Some t) reason = (0, False)"
    using p by (rule Match_of_pattern)
next
  assume "cands (path_segs reason 0) t 0 \<noteq> []"
  then obtain d v pt where r: "MatchWithPattern (Some t) reason = (v, True, pt)"
    "find (\<lambda>c. fst c = d) (cands (path_segs reason 0) t 0) = Some (d, v, pt)"
    "\<forall>c \<in> set (cands (path_segs reason 0) t 0). fst c \<le> d"
    using MatchWithPattern_some by blast
  from r(1) have "Match (Some t) reason = (v, True)" by (rule Match_of_pattern)
  with r show "\<exists>d v pt. find (\<lambda>c. fst c = d) (cands (path_segs reason 0) t 0) = Some (d, v, pt)
           \<and> (\<forall>c \<in> set (cands (path_segs reason 0) t 0). fst c \<le> d)
           \<and> MatchWithPattern (Some t) reason = (v, True, pt)
           \<and> Match (Some t) reason = (v, True)"
    by blast
qed

theorem Match_keeps_first_deepest_candidate_witness:
  "cands (path_segs ''auth.jwt.verify'' 0) trie_auth 0 \<noteq> []
   \<and> (\<exists>d v pt. find (\<lambda>c. fst c = d) (cands (path_segs ''auth.jwt.verify'' 0) trie_auth 0) = Some (d, v, pt)
         \<and> MatchWithPattern (Some trie_auth) ''auth.jwt.verify'' = (v, True, pt))"
proof -
  have ne: "cands (path_segs ''auth.jwt.verify'' 0) trie_auth 0 \<noteq> []" by code_simp
  with Match_keeps_first_deepest_candidate[of "''auth.jwt.verify''" trie_auth "(- 1, 0, [])"]
  show ?thesis by blast
qed

text \<open>
  Claim C5 as stated (the last candidate of equal depth is kept) fails: in the trie built
  from \<open>auth.*.verify\<close> mapped to 1 and \<open>auth.jwt.verify\<close> mapped to 2, the path
  \<open>auth.jwt.verify\<close> has two candidates at depth 3, the literal node first and the
  wildcard node last, and \<open>Match\<close> returns 2, the value of the first.
\<close>

theorem Match_keeps_last_candidate_counterexample:
  "insert_all segmenttrie_New [(''auth.*.verify'', 1), (''auth.jwt.verify'', 2)] = Inr trie_auth
   \<and> cands (path_segs ''auth.jwt.verify'' 0) trie_auth 0
       = [(3, 2, ''auth.jwt.verify''), (3, 1, ''auth.*.verify'')]
   \<and> Match (Some trie_auth) ''auth.jwt.verify'' = (2, True)
   \<and> Match (Some trie_auth) ''auth.jwt.verify''
       \<noteq> (fst (snd (last (cands (path_segs ''auth.jwt.verify'' 0) trie_auth 0))), True)"
  by code_simp

section \<open>Invalid segments in the looked-up path\<close>

text \<open>
  Claim C6. \<open>Match\<close> validates the path segment by segment. When the path consists of
  valid segments \<open>segs\<close> followed by a rest \<open>bad\<close> whose first segment (up to its
  first dot) is not a valid segment, the segments \<open>Match\<close> reads are exactly \<open>segs\<close>,
  and \<open>Match\<close> and \<open>MatchWithPattern\<close> return what they return on the valid part
  alone: the traversal stops at the invalid segment without an error and the result is
  the best match found before it.
\<close>

theorem Match_stops_at_invalid_segment:
  assumes "list_all (\<lambda>s. validSegment s False) segs"
    and "\<not> validSegment (takeWhile (\<lambda>c. c \<noteq> CHR ''.'') bad) False"
  shows "path_segs (Join (segs @ [bad])) 0 = segs
         \<and> Match t (Join (segs @ [bad])) = Match t (Join segs)
         \<and> MatchWithPattern t (Join (segs @ [bad])) = MatchWithPattern t (Join segs)"
proof -
  have 1: "path_segs (Join (segs @ [bad])) 0 = segs"
    using assms by (simp add: path_segs_0 segs_of_Join_bad)
  have 2: "path_segs (Join segs) 0 = segs"
    using assms(1) by (simp add: path_segs_0 segs_of_Join)
  have 3: "MatchWithPattern t (Join (segs @ [bad])) = MatchWithPattern t (Join segs)"
    by (rule Match_path_segs_cong) (simp only: 1 2)
  then have "Match t (Join (segs @ [bad])) = Match t (Join segs)"
    by (simp add: Match_MatchWithPattern)
  with 1 3 show ?thesis by blast
qed

theorem Match_stops_at_invalid_segment_witness:
  "list_all (\<lambda>s. validSegment s False) [''a'', ''b'']
   \<and> \<not> validSegment (takeWhile (\<lambda>c. c \<noteq> CHR ''.'') ''C.d'') False
   \<and> Join ([''a'', ''b''] @ [''C.d'']) = ''a.b.C.d''
   \<and> Match (Some trie_depth) ''a.b.C.d'' = Match (Some trie_depth) ''a.b''
   \<and> Match (Some trie_depth) ''a.b.C.d'' = (1, True)"
proof -
  have v: "list_all (\<lambda>s. validSegment s False) [''a'', ''b'']" by code_simp
  have b: "\<not> validSegment (takeWhile (\<lambda>c. c \<noteq> CHR ''.'') ''C.d'') False" by code_simp
  have j: "Join ([''a'', ''b''] @ [''C.d'']) = ''a.b.C.d''" "Join [''a'', ''b''] = ''a.b''" by simp_all
  have m: "Match (Some trie_depth) ''a.b'' = (1, True)" by code_simp
  from Match_stops_at_invalid_segment[OF v b, of "Some trie_depth"] j m v b
  show ?thesis by simp
qed

section \<open>Malformed prefix patterns at build time\<close>

text \<open>
  Claim C7. Building a mapper fails on any malformed prefix pattern, whatever the order
  in which the per-code rule lists are visited. A pattern is malformed when, after
  normalization, it is empty, has an empty segment, has a segment that is neither \<open>*\<close>
  nor of the literal syntax, or consists of wildcard segments only. Normalization is
  \<open>reason.Normalize\<close> with the library functions \<open>lib\<close>, so the statement holds for
  what \<open>strings.TrimSpace\<close> and \<open>strings.ToLower\<close> return on text that is not
  ASCII: a raw pattern that they turn into a well-formed one is not malformed. If some
  \<open>WithHTTPPrefix\<close> or \<open>WithGRPCPrefix\<close> option carries a malformed pattern, \<open>New\<close>
  returns an error (and so no mapper: the result is \<open>Inl\<close>) that names a family, a
  code and the raw pattern text of an option with a malformed pattern; if no option
  carries one, \<open>New\<close> returns a mapper.
\<close>

theorem New_fails_on_malformed_prefix:
  assumes oH: "\<forall>xs. set (ordH xs) = set xs" and oG: "\<forall>xs. set (ordG xs) = set xs"
  shows "((\<exists>c raw v. (WithHTTPPrefix c raw v \<in> set opts \<or> WithGRPCPrefix c raw v \<in> set opts)
             \<and> malformed (Normalize lib raw))
          \<longrightarrow> (\<exists>fam c raw cause. New lib ordH ordG opts = Inl (InvalidReasonPrefix fam raw c cause)
                 \<and> malformed (Normalize lib raw)
                 \<and> (\<exists>v. case fam of HTTP \<Rightarrow> WithHTTPPrefix c raw v \<in> set opts
                                   | GRPC \<Rightarrow> WithGRPCPrefix c raw v \<in> set opts)))
       \<and> (\<not> (\<exists>c raw v. (WithHTTPPrefix c raw v \<in> set opts \<or> WithGRPCPrefix c raw v \<in> set opts)
             \<and> malformed (Normalize lib raw))
          \<longrightarrow> (\<exists>m. New lib ordH ordG opts = Inr m))"
proof (intro conjI impI)
  assume "\<exists>c raw v. (WithHTTPPrefix c raw v \<in> set opts \<or> WithGRPCPrefix c raw v \<in> set opts)
             \<and> malformed (Normalize lib raw)"
  then have "isl (New lib ordH ordG opts)" unfolding New_isl[OF oH oG] .
  then obtain e where e: "New lib ordH ordG opts = Inl e" by (cases "New lib ordH ordG opts") auto
  from New_Inl[OF oH oG e] e
  show "\<exists>fam c raw cause. New lib ordH ordG opts = Inl (InvalidReasonPrefix fam raw c cause)
                 \<and> malformed (Normalize lib raw)
                 \<and> (\<exists>v. case fam of HTTP \<Rightarrow> WithHTTPPrefix c raw v \<in> set opts
                                   | GRPC \<Rightarrow> WithGRPCPrefix c raw v \<in> set opts)"
    by blast
next
  assume "\<not> (\<exists>c raw v. (WithHTTPPrefix c raw v \<in> set opts \<or> WithGRPCPrefix c raw v \<in> set opts)
             \<and> malformed (Normalize lib raw))"
  then have "\<not> isl (New lib ordH ordG opts)" unfolding New_isl[OF oH oG] .
  then show "\<exists>m. New lib ordH ordG opts = Inr m" by (cases "New lib ordH ordG opts") auto
qed

theorem New_fails_on_malformed_prefix_witness:
  "malformed (Normalize stdlib_ex ''a..b'')
   \<and> (\<exists>fam c raw cause.
         New stdlib_ex (\<lambda>xs. xs) rev
           [WithHTTPPrefix ''unavailable'' ''storage.pg'' 599, WithGRPCPrefix ''invalid'' ''a..b'' 3]
           = Inl (InvalidReasonPrefix fam raw c cause)
         \<and> malformed (Normalize stdlib_ex raw))"
proof -
  have m: "malformed (Normalize stdlib_ex ''a..b'')" by code_simp
  have o1: "\<forall>xs::(code \<times> prefixRule list) list. set ((\<lambda>xs. xs) xs) = set xs" by simp
  have o2: "\<forall>xs::(code \<times> prefixRule list) list. set (rev xs) = set xs" by simp
  have "\<exists>c raw v. (WithHTTPPrefix c raw v \<in> set [WithHTTPPrefix ''unavailable'' ''storage.pg'' 599, WithGRPCPrefix ''invalid'' ''a..b'' 3]
        \<or> WithGRPCPrefix c raw v \<in> set [WithHTTPPrefix ''unavailable'' ''storage.pg'' 599, WithGRPCPrefix ''invalid'' ''a..b'' 3])
      \<and> malformed (Normalize stdlib_ex raw)"
    using m by (intro exI[of _ "''invalid''"] exI[of _ "''a..b''"] exI[of _ 3]) simp
  with New_fails_on_malformed_prefix[OF o1 o2,
      of "[WithHTTPPrefix ''unavailable'' ''storage.pg'' 599, WithGRPCPrefix ''invalid'' ''a..b'' 3]"
        stdlib_ex] m
  show ?thesis by blast
qed

section \<open>Inserting the same pattern again\<close>

text \<open>
  Claim C8. Inserting the same pattern again overwrites the stored value and leaves the
  recorded pattern text alone. After \<open>Insert(p, v1)\<close> and then \<open>Insert(p, v2)\<close> the
  trie is the one a single \<open>Insert(p, v2)\<close> produces; the node of \<open>p\<close> carries
  \<open>v2\<close> and the pattern text it had after the first insertion (the text \<open>p\<close> itself
  when the node had none before); every other registered pattern is untouched; and on
  every path that \<open>p\<close> matches and on which \<open>p\<close> is the deepest registered match,
  \<open>Match\<close> yields \<open>v1\<close> after the first insertion and \<open>v2\<close> after the second,
  while \<open>MatchWithPattern\<close> reports the same pattern text both times.
\<close>

theorem Insert_same_pattern_last_write_wins:
  assumes "Insert (Some t) p v1 = Inr t1" and "Insert (Some t1) p v2 = Inr t2"
  shows "Insert (Some t) p v2 = Inr t2
     \<and> (\<exists>pt. entry t1 (Split p) = Some (v1, pt) \<and> entry t2 (Split p) = Some (v2, pt)
            \<and> (stored_pattern t (Split p) = [] \<longrightarrow> pt = p))
     \<and> (\<forall>pat. pat \<noteq> Split p \<longrightarrow> entry t1 pat = entry t pat \<and> entry t2 pat = entry t pat)
     \<and> (\<forall>reason.
           pmatch (Split p) (path_segs reason 0)
           \<and> (\<forall>pat. entry t pat \<noteq> None \<and> pmatch pat (path_segs reason 0) \<and> pat \<noteq> Split p
                  \<longrightarrow> length pat < length (Split p))
           \<longrightarrow> (\<exists>pt. MatchWithPattern (Some t1) reason = (v1, True, pt)
                    \<and> MatchWithPattern (Some t2) reason = (v2, True, pt)
                    \<and> Match (Some t1) reason = (v1, True)
                    \<and> Match (Some t2) reason = (v2, True)))"
proof -
  let ?segs = "Split p"
  let ?old = "stored_pattern t ?segs"
  let ?pt = "if ?old = [] then p else ?old"
  from assms(1) have p: "p \<noteq> []" and t1: "t1 = insert_walk ?segs p v1 t"
    and ok: "list_all (\<lambda>seg. validSegment seg True) ?segs" "\<not> list_all (\<lambda>s. s = ''*'') ?segs"
    by (simp_all add: Insert_Inr)
  from assms(2) have t2: "t2 = insert_walk ?segs p v2 t1" by (simp add: Insert_Inr)
  have t2': "t2 = insert_walk ?segs p v2 t" unfolding t2 t1 using p by (rule insert_walk_twice)
  have e1: "entry t1 pat = (if pat = ?segs then Some (v1, ?pt) else entry t pat)" for pat
    unfolding t1 by (rule entry_insert_walk)
  have e2: "entry t2 pat = (if pat = ?segs then Some (v2, ?pt) else entry t pat)" for pat
    unfolding t2' by (rule entry_insert_walk)
  have A: "Insert (Some t) p v2 = Inr t2"
    using p ok t2' by (simp add: Insert_Inr)
  have B: "\<exists>pt. entry t1 ?segs = Some (v1, pt) \<and> entry t2 ?segs = Some (v2, pt)
            \<and> (?old = [] \<longrightarrow> pt = p)"
    by (rule exI[of _ ?pt]) (simp add: e1 e2)
  have C: "\<forall>pat. pat \<noteq> ?segs \<longrightarrow> entry t1 pat = entry t pat \<and> entry t2 pat = entry t pat"
    by (simp add: e1 e2)
  have D: "\<exists>pt. MatchWithPattern (Some t1) reason = (v1, True, pt)
                    \<and> MatchWithPattern (Some t2) reason = (v2, True, pt)
                    \<and> Match (Some t1) reason = (v1, True)
                    \<and> Match (Some t2) reason = (v2, True)"
    if h: "pmatch ?segs (path_segs reason 0)
           \<and> (\<forall>pat. entry t pat \<noteq> None \<and> pmatch pat (path_segs reason 0) \<and> pat \<noteq> ?segs
                  \<longrightarrow> length pat < length ?segs)" for reason
  proof -
    have m1: "MatchWithPattern (Some t1) reason = (v1, True, ?pt)"
      using h by (intro Match_unique_deepest[where pat = ?segs]) (auto simp: e1)
    have m2: "MatchWithPattern (Some t2) reason = (v2, True, ?pt)"
      using h by (intro Match_unique_deepest[where pat = ?segs]) (auto simp: e2)
    from m1 m2 Match_of_pattern[OF m1] Match_of_pattern[OF m2] show ?thesis by blast
  qed
  from A B C D show ?thesis by blast
qed

theorem Insert_same_pattern_last_write_wins_witness:
  "Insert (Some segmenttrie_New) ''storage.pg'' 503 = Inr trie_pg
   \<and> Insert (Some trie_pg) ''storage.pg'' 599 = Inr trie_pg2
   \<and> Insert (Some segmenttrie_New) ''storage.pg'' 599 = Inr trie_pg2
   \<and> MatchWithPattern (Some trie_pg) ''storage.pg.connect'' = (503, True, ''storage.pg'')
   \<and> MatchWithPattern (Some trie_pg2) ''storage.pg.connect'' = (599, True, ''storage.pg'')"
proof -
  have 1: "Insert (Some segmenttrie_New) ''storage.pg'' 503 = Inr trie_pg" by code_simp
  have 2: "Insert (Some trie_pg) ''storage.pg'' 599 = Inr trie_pg2" by code_simp
  have 3: "MatchWithPattern (Some trie_pg) ''storage.pg.connect'' = (503, True, ''storage.pg'')"
    by code_simp
  have 4: "MatchWithPattern (Some trie_pg2) ''storage.pg.connect'' = (599, True, ''storage.pg'')"
    by code_simp
  from Insert_same_pattern_last_write_wins[OF 1 2] 1 2 3 4 show ?thesis by blast
qed

section \<open>Explain agrees with resolution\<close>

text \<open>
  Claim C9. \<open>Explain\<close> walks the same four tiers as resolution and agrees with it.
  For a mapper built by \<open>New\<close>, every code and every reason, and for each family:
  the source \<open>explainHTTP\<close> (\<open>explainGRPC\<close>) reports is one of \<open>override\<close>,
  \<open>prefix\<close>, \<open>default\<close>, \<open>fallback\<close>, and it is the tier whose value
  \<open>HTTPStatus\<close> (\<open>GRPCStatus\<close>) returns; the number printed in the line is the
  resolved value; for a prefix hit the printed pattern is the pattern text stored at the
  winning trie node, which is the dotted text of the deepest registered pattern matching
  the reason. \<open>Explain\<close> is the header line followed by these two lines. \<open>Explain\<close>
  is a function of the mapper, the code and the reason alone, so equal inputs give equal
  output. (The fallback line of the HTTP family is printed as \<open>http source=fallback\<close>,
  without the colon of the other lines, as in the source.)
\<close>

theorem Explain_consistent_with_resolution:
  assumes "New lib ordH ordG opts = Inr m"
  shows "(\<exists>src line. explainHTTP q m c r = (src, line) \<and> known_source src \<and>
     ((src = ''override'' \<and> httpOverride m c = Some (HTTPStatus m c r)
         \<and> line = ''http: source=override -> '' @ fmt_d (HTTPStatus m c r))
    \<or> (src = ''prefix'' \<and> httpOverride m c = None
         \<and> (\<exists>idx path. httpTrie m c = Some (Some idx)
               \<and> Match (Some idx) r = (HTTPStatus m c r, True)
               \<and> entry idx path = Some (HTTPStatus m c r, Join path)
               \<and> pmatch path (path_segs r 0)
               \<and> (\<forall>path'. entry idx path' \<noteq> None \<and> pmatch path' (path_segs r 0)
                      \<longrightarrow> length path' \<le> length path)
               \<and> line = ''http: source=prefix pattern='' @ q (Join path) @ '' -> ''
                          @ fmt_d (HTTPStatus m c r)))
    \<or> (src = ''default'' \<and> httpOverride m c = None \<and> trie_tier (httpTrie m c) r = None
         \<and> httpDefault m c = Some (HTTPStatus m c r)
         \<and> line = ''http: source=default -> '' @ fmt_d (HTTPStatus m c r))
    \<or> (src = ''fallback'' \<and> httpOverride m c = None \<and> trie_tier (httpTrie m c) r = None
         \<and> httpDefault m c = None \<and> HTTPStatus m c r = 500
         \<and> line = ''http source=fallback -> '' @ fmt_d (HTTPStatus m c r))))
   \<and> (\<exists>src line. explainGRPC q upperName m c r = (src, line) \<and> known_source src \<and>
     ((src = ''override'' \<and> grpcOverride m c = Some (GRPCStatus m c r)
         \<and> line = ''grpc: source=override -> '' @ fmt_code upperName (GRPCStatus m c r))
    \<or> (src = ''prefix'' \<and> grpcOverride m c = None
         \<and> (\<exists>idx path. grpcTrie m c = Some (Some idx)
               \<and> Match (Some idx) r = (GRPCStatus m c r, True)
               \<and> entry idx path = Some (GRPCStatus m c r, Join path)
               \<and> pmatch path (path_segs r 0)
               \<and> (\<forall>path'. entry idx path' \<noteq> None \<and> pmatch path' (path_segs r 0)
                      \<longrightarrow> length path' \<le> length path)
               \<and> line = ''grpc: source=prefix pattern='' @ q (Join path) @ '' -> ''
                          @ fmt_code upperName (GRPCStatus m c r)))
    \<or> (src = ''default'' \<and> grpcOverride m c = None \<and> trie_tier (grpcTrie m c) r = None
         \<and> grpcDefault m c = Some (GRPCStatus m c r)
         \<and> line = ''grpc: source=default -> '' @ fmt_code upperName (GRPCStatus m c r))
    \<or> (src = ''fallback'' \<and> grpcOverride m c = None \<and> trie_tier (grpcTrie m c) r = None
         \<and> grpcDefault m c = None \<and> GRPCStatus m c r = 13
         \<and> line = ''grpc: source=fallback -> '' @ fmt_code upperName (GRPCStatus m c r))))
   \<and> Explain q upperName m c r =
        ''code='' @ q c @ '' reason='' @ q r @ [CHR 0x0A]
        @ snd (explainHTTP q m c r) @ [CHR 0x0A] @ snd (explainGRPC q upperName m c r)"
proof -
  from New_Inr[OF assms] have fb: "fallbackHTTP m = 500" "fallbackGRPC m = 13" by simp_all
  from New_canonical[OF assms] have can: "all_canonical (httpTrie m)" "all_canonical (grpcTrie m)"
    by simp_all
  note H = explainHTTP_consistent[OF fb(1) can(1), of q c r]
  note G = explainGRPC_consistent[OF fb(2) can(2), of q upperName c r]
  from H obtain hs hl where h: "explainHTTP q m c r = (hs, hl)" "known_source hs" by blast
  from G obtain gs gl where g: "explainGRPC q upperName m c r = (gs, gl)" "known_source gs" by blast
  have E: "Explain q upperName m c r =
        ''code='' @ q c @ '' reason='' @ q r @ [CHR 0x0A]
        @ snd (explainHTTP q m c r) @ [CHR 0x0A] @ snd (explainGRPC q upperName m c r)"
    using TrimSuffix_newline_snoc[of "''code='' @ q c @ '' reason='' @ q r @ [CHR 0x0A] @ hl @ [CHR 0x0A] @ gl"]
    by (simp add: Explain_def Let_def h g)
  from H G E show ?thesis by (intro conjI)
qed

theorem Explain_consistent_with_resolution_witness:
  "New stdlib_ex (\<lambda>xs. xs) rev opts_ex = Inr mapper_ex
   \<and> HTTPStatus mapper_ex ''unavailable'' ''storage.pg.connect'' = 599
   \<and> GRPCStatus mapper_ex ''unavailable'' ''storage.pg.connect'' = 14
   \<and> Explain quote_ex name_ex mapper_ex ''unavailable'' ''storage.pg.connect'' =
        ''code='' @ quote_ex ''unavailable'' @ '' reason='' @ quote_ex ''storage.pg.connect''
        @ [CHR 0x0A] @ ''http: source=prefix pattern='' @ quote_ex ''storage.pg'' @ '' -> 599''
        @ [CHR 0x0A] @ ''grpc: source=prefix pattern='' @ quote_ex ''storage.pg''
        @ '' -> UNAVAILABLE(14)''"
proof -
  note T = Explain_consistent_with_resolution[OF New_ex,
      of quote_ex "''unavailable''" "''storage.pg.connect''" name_ex]
  have h: "explainHTTP quote_ex mapper_ex ''unavailable'' ''storage.pg.connect'' =
      (''prefix'', ''http: source=prefix pattern='' @ quote_ex ''storage.pg'' @ '' -> 599'')"
    by code_simp
  have g: "explainGRPC quote_ex name_ex mapper_ex ''unavailable'' ''storage.pg.connect'' =
      (''prefix'', ''grpc: source=prefix pattern='' @ quote_ex ''storage.pg''
         @ '' -> UNAVAILABLE(14)'')"
    by code_simp
  have s: "HTTPStatus mapper_ex ''unavailable'' ''storage.pg.connect'' = 599"
    "GRPCStatus mapper_ex ''unavailable'' ''storage.pg.connect'' = 14"
    by code_simp+
  from T have "Explain quote_ex name_ex mapper_ex ''unavailable'' ''storage.pg.connect'' =
        ''code='' @ quote_ex ''unavailable'' @ '' reason='' @ quote_ex ''storage.pg.connect''
        @ [CHR 0x0A]
        @ snd (explainHTTP quote_ex mapper_ex ''unavailable'' ''storage.pg.connect'') @ [CHR 0x0A]
        @ snd (explainGRPC quote_ex name_ex mapper_ex ''unavailable'' ''storage.pg.connect'')"
    by (rule conjunct2[THEN conjunct2])
  then have e: "Explain quote_ex name_ex mapper_ex ''unavailable'' ''storage.pg.connect'' =
        ''code='' @ quote_ex ''unavailable'' @ '' reason='' @ quote_ex ''storage.pg.connect''
        @ [CHR 0x0A] @ ''http: source=prefix pattern='' @ quote_ex ''storage.pg'' @ '' -> 599''
        @ [CHR 0x0A] @ ''grpc: source=prefix pattern='' @ quote_ex ''storage.pg''
        @ '' -> UNAVAILABLE(14)''"
    unfolding h g by simp
  from New_ex s e show ?thesis by (intro conjI)
qed

section \<open>Nil receivers\<close>

text \<open>
  Claim C10. Every trie operation is defined on a nil receiver: \<open>Insert\<close> on a nil
  trie returns \<open>ErrInvalidPrefix\<close>, and \<open>Match\<close> and \<open>MatchWithPattern\<close> on a nil
  trie return the zero value with \<open>found = false\<close> (and the empty pattern), whatever
  the prefix, the value or the reason.
\<close>

theorem nil_receiver_total:
  "Insert None prefix v = Inl ErrInvalidPrefix
   \<and> Match None reason = (0, False)
   \<and> MatchWithPattern None reason = (0, False, [])"
  by (simp add: Insert_def Match_def MatchWithPattern_def)

theorem nil_receiver_total_witness:
  "Insert None ''storage.pg'' (503::int) = Inl ErrInvalidPrefix
   \<and> Match None ''storage.pg.connect'' = (0::int, False)
   \<and> MatchWithPattern None ''storage.pg.connect'' = (0::int, False, [])"
  using nil_receiver_total [of "''storage.pg''" "503::int" "''storage.pg.connect''"] by simp

end
